theory Spec2Isabelle
  imports Complex_Main "HOL-Library.Word" "HOL-Library.Multiset" "HOL-Library.Log_Nat"
begin

unbundle bit_operations_syntax

section \<open>Storage types\<close>

text \<open>
  A \<^verbatim>\<open>jack_port_t *\<close> is an opaque handle; it is modelled by the address it holds, the
  null pointer being \<open>0\<close>. \<^verbatim>\<open>jack_nframes_t\<close> is \<^verbatim>\<open>uint32_t\<close>.
\<close>

type_synonym jack_port = nat
type_synonym jack_nframes = "32 word"

text \<open>
  The struct \<^verbatim>\<open>Message\<close>. The \<^verbatim>\<open>next\<close> pointer is the list structure of the queue that
  holds the message, and \<^verbatim>\<open>data_size\<close> is the length of \<open>data\<close>.
\<close>

record Message =
  port :: jack_port
  time :: jack_nframes
  data :: "8 word list"

text \<open>
  An event in a JACK MIDI port buffer (\<^verbatim>\<open>jack_midi_event_t\<close>): its frame offset in the
  block and its bytes.
\<close>

type_synonym midi_event = "jack_nframes \<times> 8 word list"

text \<open>
  The private part of the struct \<^verbatim>\<open>Client\<close>. The arrays \<^verbatim>\<open>_send_ports\<close> and
  \<^verbatim>\<open>_receive_ports\<close> with their counts are lists; each of the two linked lists of
  messages is the list of its nodes from the head on (the tail pointer of the receive
  queue addresses the last node).
\<close>

record Client =
  is_active :: bool
  send_ports :: "jack_port list"
  midi_send_queue :: "Message list"
  receive_ports :: "jack_port list"
  midi_receive_queue :: "Message list"

definition MAX_PORTS_PER_CLIENT :: nat where
  "MAX_PORTS_PER_CLIENT = 256"

section \<open>Sending queued messages in the process callback\<close>

text \<open>
  The \<^verbatim>\<open>while\<close> loop of \<^verbatim>\<open>Client_send_messages_for_port\<close>, over the nodes that are
  still to be visited. \<open>reserve\<close> stands for \<^verbatim>\<open>jack_midi_event_reserve\<close>: given the
  events written so far, a frame offset and a size, it tells whether the server hands out
  space. The message leaves the queue whether or not the server did. The result is the
  queue that remains and the port buffer. The counter \<^verbatim>\<open>port_send_count\<close>, an \<^verbatim>\<open>int\<close>
  that grows by one for each message sent in the call, is a natural number: it stays below
  the number of queued messages.
\<close>

fun send_loop ::
  "(midi_event list \<Rightarrow> jack_nframes \<Rightarrow> nat \<Rightarrow> bool) \<Rightarrow> jack_port \<Rightarrow> jack_nframes \<Rightarrow>
   Message list \<Rightarrow> nat \<Rightarrow> jack_nframes \<Rightarrow> midi_event list \<Rightarrow> Message list \<times> midi_event list"
where
  "send_loop reserve p nframes [] port_send_count last_time buf = ([], buf)"
| "send_loop reserve p nframes (m # ms) port_send_count last_time buf =
     (if port m = p then
        (let m1 = (if 0 < port_send_count \<and> time m \<le> last_time
                   then m\<lparr>time := last_time + 1\<rparr> else m)
         in if time m1 < nframes then
              send_loop reserve p nframes ms (port_send_count + 1) (time m1)
                (if reserve buf (time m1) (length (data m1))
                 then buf @ [(time m1, data m1)] else buf)
            else
              (case send_loop reserve p nframes ms port_send_count last_time buf of
                 (q, b) \<Rightarrow> (m1\<lparr>time := time m1 - nframes\<rparr> # q, b)))
      else
        (case send_loop reserve p nframes ms port_send_count last_time buf of
           (q, b) \<Rightarrow> (m # q, b)))"

text \<open>
  \<^verbatim>\<open>Client_send_messages_for_port\<close>. \<open>port_buffer\<close> tells whether
  \<^verbatim>\<open>jack_port_get_buffer\<close> returned a buffer; the buffer is cleared before anything is
  written. The second component is the buffer the server is left with (\<open>None\<close> when no
  buffer was obtained).
\<close>

definition Client_send_messages_for_port ::
  "(midi_event list \<Rightarrow> jack_nframes \<Rightarrow> nat \<Rightarrow> bool) \<Rightarrow> bool \<Rightarrow> Client \<Rightarrow> jack_port \<Rightarrow>
   jack_nframes \<Rightarrow> Client \<times> midi_event list option"
where
  "Client_send_messages_for_port reserve port_buffer self p nframes =
     (if \<not> port_buffer then (self, None)
      else if midi_send_queue self = [] then (self, Some [])
      else (case send_loop reserve p nframes (midi_send_queue self) 0 0 [] of
              (q, b) \<Rightarrow> (self\<lparr>midi_send_queue := q\<rparr>, Some b)))"

text \<open>
  The locked section of \<^verbatim>\<open>Port_send\<close>: the new message goes in front of the first
  queued message with a later time, or to the end.
\<close>

fun send_queue_insert :: "Message \<Rightarrow> Message list \<Rightarrow> Message list" where
  "send_queue_insert message [] = [message]"
| "send_queue_insert message (current # rest) =
     (if time message < time current then message # current # rest
      else current # send_queue_insert message rest)"


text \<open>
  What the send loop does to a message of the port that it leaves in the queue: the time
  is moved to the next block.
\<close>

definition rebase :: "jack_port \<Rightarrow> jack_nframes \<Rightarrow> Message \<Rightarrow> Message" where
  "rebase p nframes x = (if port x = p then x\<lparr>time := time x - nframes\<rparr> else x)"

text \<open>
  For a queue in which no message of port \<open>p\<close> has to be pushed forward: the messages
  that a drain of \<open>p\<close> leaves queued (those of other ports, and those of \<open>p\<close> that are due
  after the block, moved to the next block), and the events that it writes (the messages
  of \<open>p\<close> that are due within the block, in queue order).
\<close>

definition later :: "jack_port \<Rightarrow> jack_nframes \<Rightarrow> Message list \<Rightarrow> Message list" where
  "later p nframes q =
     map (rebase p nframes) (filter (\<lambda>x. port x \<noteq> p \<or> \<not> time x < nframes) q)"


text \<open>
  The order that insertion keeps for the messages of one port, whatever the other ports'
  messages look like: no message queued ahead of a message of port \<open>p\<close> is later than it.
\<close>

definition in_turn :: "jack_port \<Rightarrow> Message list \<Rightarrow> bool" where
  "in_turn p q = sorted_wrt (\<lambda>x y. port y = p \<longrightarrow> time x \<le> time y) q"

section \<open>Time conversion\<close>

text \<open>
  A C \<^verbatim>\<open>double\<close> is an IEEE 754 binary64 number (C11 Annex F); a finite one is modelled
  by the real number it holds. An arithmetic operation on doubles yields the exact result
  rounded to the nearest double, a tie going to the double with the even significand.

  \<open>round_even\<close> rounds a real number to the nearest integer, a tie to the even one.
\<close>

definition round_even :: "real \<Rightarrow> int" where
  "round_even x =
     (let f = \<lfloor>x\<rfloor>
      in if x - of_int f < 1 / 2 then f
         else if 1 / 2 < x - of_int f then f + 1
         else if even f then f else f + 1)"

text \<open>
  The binary exponent of a positive real number \<open>x\<close>: the integer \<open>e\<close> with
  \<open>2 ^ e \<le> x < 2 ^ (e + 1)\<close>, computed from the number of binary digits of the integral
  part of \<open>x\<close>, or of \<open>1 / x\<close> when \<open>x < 1\<close>.
\<close>

definition binade :: "real \<Rightarrow> int" where
  "binade x = (if 1 \<le> x then bitlen \<lfloor>x\<rfloor> - 1 else - bitlen (\<lceil>1 / x\<rceil> - 1))"

text \<open>
  Rounding to a double. With 53 significant bits the doubles between \<open>2 ^ e\<close> and
  \<open>2 ^ (e + 1)\<close> are the multiples of \<open>2 ^ (e - 52)\<close>; below \<open>2 ^ (- 1022)\<close> (the subnormal
  range) they are the multiples of \<open>2 ^ (- 1074)\<close>. Infinities and NaN are no values of
  the model, and a result beyond the greatest finite double is not turned into an
  infinity: in the code below such a result would only reach the cast to
  \<^verbatim>\<open>jack_nframes_t\<close>, where it is out of range like the finite value.
\<close>

definition to_double :: "real \<Rightarrow> real" where
  "to_double x =
     (if x = 0 then 0
      else (let q = max (binade \<bar>x\<bar>) (- 1022) - 52
            in 2 powi q * of_int (round_even (x / 2 powi q))))"

text \<open>
  The cast \<^verbatim>\<open>(jack_nframes_t)x\<close> discards the fractional part; when the integral part does
  not fit the unsigned 32-bit type the C standard leaves the behaviour undefined
  (C11 6.3.1.4), which is the result \<open>None\<close>.
\<close>

definition c_trunc :: "real \<Rightarrow> int" where
  "c_trunc x = (if 0 \<le> x then \<lfloor>x\<rfloor> else \<lceil>x\<rceil>)"

definition double_to_nframes :: "real \<Rightarrow> jack_nframes option" where
  "double_to_nframes x =
     (if 0 \<le> c_trunc x \<and> c_trunc x < 2 ^ 32 then Some (word_of_int (c_trunc x)) else None)"

text \<open>
  \<^verbatim>\<open>Port_send\<close>: \<^verbatim>\<open>message->time = (jack_nframes_t)(time * (double)sample_rate)\<close>. The
  conversion of the 32-bit sample rate to a double is exact; the product is rounded to a
  double, and that double is cast.
\<close>

definition Port_send_time :: "jack_nframes \<Rightarrow> real \<Rightarrow> jack_nframes option" where
  "Port_send_time sample_rate secs =
     double_to_nframes (to_double (secs * real (unat sample_rate)))"

text \<open>
  \<^verbatim>\<open>Port_receive\<close>: \<^verbatim>\<open>(double)message->time / (double)sample_rate\<close>, the quotient of two
  exact conversions, rounded to a double. Division by zero is undefined in C (C11 6.5.5)
  and is kept out by the caller below.
\<close>

definition Port_receive_time :: "jack_nframes \<Rightarrow> jack_nframes \<Rightarrow> real" where
  "Port_receive_time sample_rate frames =
     to_double (real (unat frames) / real (unat sample_rate))"

text \<open>
  \<^verbatim>\<open>Transport_set_time\<close>, for a float value and an open client: the frame handed to
  \<^verbatim>\<open>jack_transport_locate\<close>. Negative times are replaced by \<open>0\<close> first.
\<close>

definition Transport_set_time :: "jack_nframes \<Rightarrow> real \<Rightarrow> jack_nframes option" where
  "Transport_set_time sample_rate secs =
     (let t = (if secs < 0 then 0 else secs)
      in double_to_nframes (to_double (real (unat sample_rate) * t)))"

section \<open>Python values and results\<close>

datatype pyobj =
  PyNone
  | PyLong int
  | PyFloat real
  | PyList "pyobj list"
  | PyTuple "pyobj list"

text \<open>
  The exceptions. \<open>JackError_i\<close> is a \<^verbatim>\<open>JackError\<close> whose message is a format with one
  \<^verbatim>\<open>%i\<close>, together with the integer that fills it.
\<close>

datatype py_exception = TypeError | OverflowError | JackError string | JackError_i string int

text \<open>
  How a method ends: with a value, with \<^verbatim>\<open>NULL\<close> and an exception set, with a value
  although an exception is set, or in a state the C standard does not define. When a
  method returns a value with an exception set, the interpreter raises \<^verbatim>\<open>SystemError\<close> in
  the caller.
\<close>

datatype outcome =
  Returned pyobj
  | Raised py_exception
  | Returned_with_error pyobj py_exception
  | Undefined

text \<open>
  \<^verbatim>\<open>return(value)\<close> at a point where the error indicator holds \<open>pending\<close>. The indicator
  is clear when a method is entered.
\<close>

definition return_value :: "py_exception option \<Rightarrow> pyobj \<Rightarrow> outcome" where
  "return_value pending v =
     (case pending of None \<Rightarrow> Returned v | Some e \<Rightarrow> Returned_with_error v e)"

fun PySequence_Check :: "pyobj \<Rightarrow> bool" where
  "PySequence_Check (PyList xs) = True"
| "PySequence_Check (PyTuple xs) = True"
| "PySequence_Check x = False"

fun PySequence_items :: "pyobj \<Rightarrow> pyobj list" where
  "PySequence_items (PyList xs) = xs"
| "PySequence_items (PyTuple xs) = xs"
| "PySequence_items x = []"

text \<open>
  \<^verbatim>\<open>PyLong_AsLong\<close> with a 64-bit \<^verbatim>\<open>long\<close>: an integer outside the range of \<^verbatim>\<open>long\<close>
  raises \<^verbatim>\<open>OverflowError\<close>, an object that is no integer raises \<^verbatim>\<open>TypeError\<close> (as
  Python does from version 3.10 on, also for a float).
\<close>

fun PyLong_AsLong :: "pyobj \<Rightarrow> py_exception + 64 word" where
  "PyLong_AsLong (PyLong v) =
     (if - (2 ^ 63) \<le> v \<and> v < 2 ^ 63 then Inr (word_of_int v) else Inl OverflowError)"
| "PyLong_AsLong x = Inl TypeError"

section \<open>Ports\<close>

text \<open>Bits of \<^verbatim>\<open>enum JackPortFlags\<close> in the JACK header \<^verbatim>\<open>jack/types.h\<close>.\<close>

definition JackPortIsInput :: "'a::len word" where
  "JackPortIsInput = 1"

definition JackPortIsOutput :: "'a::len word" where
  "JackPortIsOutput = 2"

definition NULL :: jack_port where
  "NULL = 0"

text \<open>
  The private part of the struct \<^verbatim>\<open>Port\<close>. \<open>flags\<close> is what the server answers to
  \<^verbatim>\<open>jack_port_flags(self->_port)\<close>: \<^verbatim>\<open>Port_init\<close> stores it in \<^verbatim>\<open>self->flags\<close>, and
  \<^verbatim>\<open>Port_send\<close> and \<^verbatim>\<open>Port_receive\<close> ask again (the flags of a JACK port never change).
\<close>

record Port =
  port_ptr :: jack_port
  is_mine :: bool
  flags :: "32 word"

text \<open>
  \<^verbatim>\<open>Client_activate\<close>. \<open>open_result\<close> is what the call of \<^verbatim>\<open>Client_open\<close> leaves: \<open>None\<close>
  when \<^verbatim>\<open>self->_client\<close> is set afterwards (the client was open, or has been opened now),
  and the exception that \<^verbatim>\<open>Client_open\<close> has set when \<^verbatim>\<open>self->_client\<close> is still \<^verbatim>\<open>NULL\<close>.
  \<open>activate_result\<close> is the answer of \<^verbatim>\<open>jack_activate\<close>; \<^verbatim>\<open>jack_set_process_callback\<close> is
  taken to succeed (its failure only issues a warning). The first component of the result
  is \<open>None\<close> when the function returns \<^verbatim>\<open>None\<close>, and the exception that is set when it
  returns \<^verbatim>\<open>NULL\<close>. The queues are not touched.
\<close>

definition Client_activate ::
  "py_exception option \<Rightarrow> int \<Rightarrow> Client \<Rightarrow> py_exception option \<times> Client"
where
  "Client_activate open_result activate_result self =
     (case open_result of
        Some e \<Rightarrow> (Some e, self)
      | None \<Rightarrow>
          if is_active self then (None, self)
          else if activate_result \<noteq> 0 then
            (Some (JackError_i ''Failed to activate the JACK client (error %i)''
                     activate_result), self)
          else (None, self\<lparr>is_active := True\<rparr>))"

text \<open>
  \<^verbatim>\<open>Port_init\<close> for well-typed arguments. \<open>opened\<close>: \<^verbatim>\<open>Client_open\<close> left a
  connection; \<open>by_name\<close>, \<open>registered\<close> and \<open>server_flags\<close>: the answers of
  \<^verbatim>\<open>jack_port_by_name\<close>, \<^verbatim>\<open>jack_port_register\<close> and \<^verbatim>\<open>jack_port_flags\<close>. The result is
  the returned status, whether the warning about too many ports was issued, the port
  object and the client.
\<close>

definition Port_init ::
  "bool \<Rightarrow> jack_port \<Rightarrow> jack_port \<Rightarrow> 32 word \<Rightarrow> Port \<Rightarrow> Client \<Rightarrow> 64 word \<Rightarrow>
   int \<times> bool \<times> Port \<times> Client"
where
  "Port_init opened by_name registered server_flags self client flags_arg =
     (if \<not> opened then (- 1, False, self, client)
      else if by_name \<noteq> NULL then
        (0, False, self\<lparr>port_ptr := by_name, is_mine := False, flags := server_flags\<rparr>, client)
      else
        (case
           (if flags_arg AND JackPortIsInput \<noteq> 0 then
              (if MAX_PORTS_PER_CLIENT \<le> length (receive_ports client) then (True, client)
               else (False, client\<lparr>receive_ports := receive_ports client @ [registered]\<rparr>))
            else if flags_arg AND JackPortIsOutput \<noteq> 0 then
              (if MAX_PORTS_PER_CLIENT \<le> length (send_ports client) then (True, client)
               else (False, client\<lparr>send_ports := send_ports client @ [registered]\<rparr>))
            else (False, client))
         of (warned, client1) \<Rightarrow>
           if registered = NULL then
             (- 1, warned, self\<lparr>port_ptr := registered, is_mine := True\<rparr>, client1)
           else
             (0, warned,
              self\<lparr>port_ptr := registered, is_mine := True, flags := server_flags\<rparr>, client1)))"

text \<open>
  The loop of \<^verbatim>\<open>Port_send\<close> that fills the message:
  \<^verbatim>\<open>*mdata = (unsigned char)(value & 0xFF)\<close>, given up at the first item for which
  \<^verbatim>\<open>(value == -1) && (PyErr_Occurred())\<close> holds: an item that \<^verbatim>\<open>PyLong_AsLong\<close> refuses,
  or the item \<open>-1\<close> when an exception is pending from before the loop.
\<close>

fun send_data_loop :: "py_exception option \<Rightarrow> pyobj list \<Rightarrow> py_exception + 8 word list" where
  "send_data_loop pending [] = Inr []"
| "send_data_loop pending (item # items) =
     (case PyLong_AsLong item of
        Inl e \<Rightarrow> Inl e
      | Inr v \<Rightarrow>
          (case (if v = - 1 then pending else None) of
             Some e \<Rightarrow> Inl e
           | None \<Rightarrow>
               (case send_data_loop pending items of
                  Inl e \<Rightarrow> Inl e
                | Inr bytes \<Rightarrow> Inr (ucast (v AND 0xFF) # bytes))))"

text \<open>
  \<^verbatim>\<open>Port_send\<close> for parsed arguments (an object and a float). \<open>open_result\<close> and
  \<open>activate_result\<close> are handed to \<^verbatim>\<open>Client_activate\<close>, whose result the function does
  not look at: an exception that it has set stays pending. \<open>malloc_ok\<close>: the allocation of
  the message succeeds; \<open>sample_rate\<close>: the answer of \<^verbatim>\<open>jack_get_sample_rate\<close>, which is
  called with a null pointer when \<^verbatim>\<open>Client_open\<close> has left no connection (the JACK
  library reads through the pointer). The client is returned in every case, so that what
  a failed call leaves behind can be read off.
\<close>

definition Port_send ::
  "py_exception option \<Rightarrow> int \<Rightarrow> bool \<Rightarrow> jack_nframes \<Rightarrow> Port \<Rightarrow> pyobj \<Rightarrow> real \<Rightarrow>
   Client \<Rightarrow> outcome \<times> Client"
where
  "Port_send open_result activate_result malloc_ok sample_rate self data_arg secs client =
     (if \<not> PySequence_Check data_arg then (Raised TypeError, client)
      else if \<not> is_mine self then
        (Raised (JackError ''Only ports created by jackpatch can send MIDI messages''), client)
      else if flags self AND JackPortIsOutput = 0 then
        (Raised (JackError ''Only output ports can send MIDI messages''), client)
      else
        (case Client_activate open_result activate_result client of
           (pending, client1) \<Rightarrow>
             if open_result \<noteq> None then (Undefined, client1)
             else if \<not> malloc_ok then
               (Raised (JackError ''Failed to allocate memory for MIDI data''), client1)
             else
               (case Port_send_time sample_rate secs of
                  None \<Rightarrow> (Undefined, client1)
                | Some t \<Rightarrow>
                    (case send_data_loop pending (PySequence_items data_arg) of
                       Inl e \<Rightarrow> (Raised e, client1)
                     | Inr bytes \<Rightarrow>
                         (return_value pending PyNone,
                          client1\<lparr>midi_send_queue :=
                            send_queue_insert \<lparr>port = port_ptr self, time = t, data = bytes\<rparr>
                              (midi_send_queue client1)\<rparr>)))))"

section \<open>Receiving\<close>

text \<open>
  The \<^verbatim>\<open>for\<close> loop of \<^verbatim>\<open>Client_receive_messages_for_port\<close>. The events of the port
  buffer are given in index order, \<open>None\<close> where \<^verbatim>\<open>jack_midi_event_get\<close> fails;
  \<open>malloc_ok i\<close> tells whether the allocation for index \<open>i\<close> succeeds. A new message is
  linked behind the tail.
\<close>

fun receive_loop ::
  "(nat \<Rightarrow> bool) \<Rightarrow> jack_port \<Rightarrow> jack_nframes \<Rightarrow> midi_event option list \<Rightarrow> nat \<Rightarrow>
   Message list \<Rightarrow> Message list"
where
  "receive_loop malloc_ok p start_frame [] i queue = queue"
| "receive_loop malloc_ok p start_frame (event # events) i queue =
     (case event of
        None \<Rightarrow> receive_loop malloc_ok p start_frame events (i + 1) queue
      | Some (event_time, event_buffer) \<Rightarrow>
          if \<not> malloc_ok i then receive_loop malloc_ok p start_frame events (i + 1) queue
          else receive_loop malloc_ok p start_frame events (i + 1)
                 (queue @ [\<lparr>port = p, time = start_frame + event_time, data = event_buffer\<rparr>]))"

text \<open>
  \<^verbatim>\<open>Client_receive_messages_for_port\<close>. \<open>port_buffer\<close> is \<open>None\<close> when
  \<^verbatim>\<open>jack_port_get_buffer\<close> returns no buffer, else the events in it; \<open>start_frame\<close> is the
  transport position that \<^verbatim>\<open>jack_transport_query\<close> reports.
\<close>

definition Client_receive_messages_for_port ::
  "(nat \<Rightarrow> bool) \<Rightarrow> midi_event option list option \<Rightarrow> jack_nframes \<Rightarrow> Client \<Rightarrow> jack_port \<Rightarrow>
   Client"
where
  "Client_receive_messages_for_port malloc_ok port_buffer start_frame self p =
     (case port_buffer of
        None \<Rightarrow> self
      | Some events \<Rightarrow>
          if length events = 0 then self
          else self\<lparr>midi_receive_queue :=
                 receive_loop malloc_ok p start_frame events 0 (midi_receive_queue self)\<rparr>)"

text \<open>
  The \<^verbatim>\<open>while\<close> loop of \<^verbatim>\<open>Port_receive\<close>: the first message of the port, and the queue
  without it.
\<close>

fun receive_scan :: "jack_port \<Rightarrow> Message list \<Rightarrow> (Message \<times> Message list) option" where
  "receive_scan p [] = None"
| "receive_scan p (message # rest) =
     (if port message = p then Some (message, rest)
      else (case receive_scan p rest of
              None \<Rightarrow> None
            | Some (found, rest') \<Rightarrow> Some (found, message # rest')))"

text \<open>
  \<^verbatim>\<open>Port_receive\<close>. As in \<^verbatim>\<open>Port_send\<close> the result of \<^verbatim>\<open>Client_activate\<close> is not looked
  at, and with a queue that is not empty \<^verbatim>\<open>jack_get_sample_rate\<close> is called, with a null
  pointer when \<^verbatim>\<open>Client_open\<close> has left no connection.
\<close>

definition Port_receive ::
  "py_exception option \<Rightarrow> int \<Rightarrow> jack_nframes \<Rightarrow> Port \<Rightarrow> Client \<Rightarrow> outcome \<times> Client"
where
  "Port_receive open_result activate_result sample_rate self client =
     (if \<not> is_mine self then
        (Raised (JackError ''Only ports created by jackpatch can receive MIDI messages''), client)
      else if flags self AND JackPortIsInput = 0 then
        (Raised (JackError ''Only input ports can receive MIDI messages''), client)
      else
        (case Client_activate open_result activate_result client of
           (pending, client1) \<Rightarrow>
             if midi_receive_queue client1 = [] then (return_value pending PyNone, client1)
             else if open_result \<noteq> None then (Undefined, client1)
             else
               (case receive_scan (port_ptr self) (midi_receive_queue client1) of
                  None \<Rightarrow> (return_value pending PyNone, client1)
                | Some (message, rest) \<Rightarrow>
                    if sample_rate = 0 then (Undefined, client1)
                    else
                      (return_value pending (PyTuple
                         [PyList (map (\<lambda>c. PyLong (uint c)) (data message)),
                          PyFloat (Port_receive_time sample_rate (time message))]),
                       client1\<lparr>midi_receive_queue := rest\<rparr>))))"

section \<open>The process callback\<close>

text \<open>
  \<^verbatim>\<open>Client_process\<close>: every port in \<^verbatim>\<open>_send_ports\<close> is drained, then every port in
  \<^verbatim>\<open>_receive_ports\<close> is filled from. \<open>port_buffer\<close> tells for which output ports the
  server hands out a buffer, \<open>port_events\<close> gives the buffer of each input port. The
  result is the returned status, the client, and what was written for each output port.
\<close>

fun send_ports_loop ::
  "(midi_event list \<Rightarrow> jack_nframes \<Rightarrow> nat \<Rightarrow> bool) \<Rightarrow> (jack_port \<Rightarrow> bool) \<Rightarrow> jack_nframes \<Rightarrow>
   jack_port list \<Rightarrow> Client \<Rightarrow> Client \<times> (jack_port \<times> midi_event list option) list"
where
  "send_ports_loop reserve port_buffer nframes [] self = (self, [])"
| "send_ports_loop reserve port_buffer nframes (p # ps) self =
     (case Client_send_messages_for_port reserve (port_buffer p) self p nframes of
        (self1, b) \<Rightarrow>
          (case send_ports_loop reserve port_buffer nframes ps self1 of
             (self2, bs) \<Rightarrow> (self2, (p, b) # bs)))"

fun receive_ports_loop ::
  "(jack_port \<Rightarrow> nat \<Rightarrow> bool) \<Rightarrow> (jack_port \<Rightarrow> midi_event option list option) \<Rightarrow>
   jack_nframes \<Rightarrow> jack_port list \<Rightarrow> Client \<Rightarrow> Client"
where
  "receive_ports_loop malloc_ok port_events start_frame [] self = self"
| "receive_ports_loop malloc_ok port_events start_frame (p # ps) self =
     receive_ports_loop malloc_ok port_events start_frame ps
       (Client_receive_messages_for_port (malloc_ok p) (port_events p) start_frame self p)"

definition Client_process ::
  "(midi_event list \<Rightarrow> jack_nframes \<Rightarrow> nat \<Rightarrow> bool) \<Rightarrow> (jack_port \<Rightarrow> bool) \<Rightarrow>
   (jack_port \<Rightarrow> nat \<Rightarrow> bool) \<Rightarrow> (jack_port \<Rightarrow> midi_event option list option) \<Rightarrow>
   jack_nframes \<Rightarrow> jack_nframes \<Rightarrow> Client \<Rightarrow>
   int \<times> Client \<times> (jack_port \<times> midi_event list option) list"
where
  "Client_process reserve port_buffer malloc_ok port_events start_frame nframes self =
     (case send_ports_loop reserve port_buffer nframes (send_ports self) self of
        (self1, written) \<Rightarrow>
          (0, receive_ports_loop malloc_ok port_events start_frame (receive_ports self1) self1,
           written))"

section \<open>The queues as linked lists in memory\<close>

text \<open>
  The two queues are singly linked lists of \<^verbatim>\<open>Message\<close> structs that the code walks and
  relinks by hand. Here the structs live in a memory of allocated cells, addressed by
  numbers, \<open>0\<close> being the null pointer; reading a cell that is not allocated has no
  result (\<open>None\<close>). The loops are written on this memory as the source has them, and
  further down each is shown to compute what the list functions above describe, without
  ever reading outside the allocated cells.
\<close>

type_synonym addr = nat

record Message_struct =
  next_ptr :: addr
  content :: Message

type_synonym memory = "addr \<Rightarrow> Message_struct option"

text \<open>The assignment \<^verbatim>\<open>a->next = v\<close>.\<close>

definition set_next :: "memory \<Rightarrow> addr \<Rightarrow> addr \<Rightarrow> memory option" where
  "set_next h a v = (case h a of None \<Rightarrow> None | Some c \<Rightarrow> Some (h(a \<mapsto> c\<lparr>next_ptr := v\<rparr>)))"

text \<open>
  \<open>chain h a xs b\<close>: following the \<^verbatim>\<open>next\<close> pointers from \<open>a\<close> leads through the cells
  \<open>xs\<close>, given with their addresses and messages, and arrives at \<open>b\<close>. A queue is a
  chain from the head to the null pointer; the receive queue also keeps the address of
  its last cell in the tail pointer.
\<close>

fun chain :: "memory \<Rightarrow> addr \<Rightarrow> (addr \<times> Message) list \<Rightarrow> addr \<Rightarrow> bool" where
  "chain h a [] b = (a = b)"
| "chain h a ((x, m) # xs) b =
     (a = x \<and> x \<noteq> 0 \<and> (\<exists>n. h x = Some \<lparr>next_ptr = n, content = m\<rparr> \<and> chain h n xs b))"

definition linked :: "memory \<Rightarrow> addr \<Rightarrow> (addr \<times> Message) list \<Rightarrow> bool" where
  "linked h head xs = (chain h head xs 0 \<and> distinct (map fst xs))"

definition linked_to :: "memory \<Rightarrow> addr \<Rightarrow> addr \<Rightarrow> (addr \<times> Message) list \<Rightarrow> bool" where
  "linked_to h head tail xs =
     (linked h head xs \<and> tail = (if xs = [] then 0 else fst (last xs)))"

text \<open>
  The insertion loop of \<^verbatim>\<open>Port_send\<close> and the locked section around it. \<open>message\<close> is
  the address of the new struct, whose \<^verbatim>\<open>next\<close> is null. The loop returns the memory,
  the head, \<open>message\<close> (null once the struct has been linked in) and \<open>last\<close>.
\<close>

partial_function (option) insert_loop_ptr ::
  "memory \<Rightarrow> addr \<Rightarrow> addr \<Rightarrow> jack_nframes \<Rightarrow> addr \<Rightarrow> addr \<Rightarrow>
   (memory \<times> addr \<times> addr \<times> addr) option"
where
  "insert_loop_ptr h head message mtime lastp current =
     (if current = 0 then Some (h, head, message, lastp)
      else
        (case h current of
           None \<Rightarrow> None
         | Some c \<Rightarrow>
             if mtime < time (content c) then
               (case (if lastp = 0 then Some (h, message)
                      else map_option (\<lambda>h1. (h1, head)) (set_next h lastp message)) of
                  None \<Rightarrow> None
                | Some (h1, head1) \<Rightarrow>
                    map_option (\<lambda>h2. (h2, head1, 0, lastp)) (set_next h1 message current))
             else insert_loop_ptr h head message mtime current (next_ptr c)))"

definition send_queue_insert_ptr :: "memory \<Rightarrow> addr \<Rightarrow> addr \<Rightarrow> (memory \<times> addr) option" where
  "send_queue_insert_ptr h head message =
     (if head = 0 then Some (h, message)
      else
        (case h message of
           None \<Rightarrow> None
         | Some c \<Rightarrow>
             (case insert_loop_ptr h head message (time (content c)) 0 head of
                None \<Rightarrow> None
              | Some (h1, head1, message1, lastp) \<Rightarrow>
                  if message1 \<noteq> 0 \<and> lastp \<noteq> 0
                  then map_option (\<lambda>h2. (h2, head1)) (set_next h1 lastp message1)
                  else Some (h1, head1))))"

text \<open>
  Attaching a new struct to the receive queue in \<^verbatim>\<open>Client_receive_messages_for_port\<close>.
\<close>

definition receive_append_ptr ::
  "memory \<Rightarrow> addr \<Rightarrow> addr \<Rightarrow> addr \<Rightarrow> (memory \<times> addr \<times> addr) option"
where
  "receive_append_ptr h head tail message =
     (case (if tail \<noteq> 0 then set_next h tail message else Some h) of
        None \<Rightarrow> None
      | Some h1 \<Rightarrow> Some (h1, if head = 0 then message else head, message))"

text \<open>
  The loop of \<^verbatim>\<open>Port_receive\<close>: the message found (if any), the memory with its struct
  freed, the head and the tail.
\<close>

partial_function (option) receive_scan_ptr ::
  "jack_port \<Rightarrow> memory \<Rightarrow> addr \<Rightarrow> addr \<Rightarrow> addr \<Rightarrow> addr \<Rightarrow>
   (Message option \<times> memory \<times> addr \<times> addr) option"
where
  "receive_scan_ptr p h head tail lastp message =
     (if message = 0 then Some (None, h, head, tail)
      else
        (case h message of
           None \<Rightarrow> None
         | Some c \<Rightarrow>
             if port (content c) = p then
               (case (if lastp \<noteq> 0 then set_next h lastp (next_ptr c) else Some h) of
                  None \<Rightarrow> None
                | Some h1 \<Rightarrow>
                    Some (Some (content c), h1(message := None),
                          if message = head then next_ptr c else head,
                          if message = tail then lastp else tail))
             else receive_scan_ptr p h head tail message (next_ptr c)))"

text \<open>
  The loop of \<^verbatim>\<open>Client_send_messages_for_port\<close>, with the time of a struct changed in
  place and a sent struct unlinked and freed.
\<close>

partial_function (option) send_loop_ptr ::
  "(midi_event list \<Rightarrow> jack_nframes \<Rightarrow> nat \<Rightarrow> bool) \<Rightarrow> jack_port \<Rightarrow> jack_nframes \<Rightarrow>
   memory \<Rightarrow> addr \<Rightarrow> addr \<Rightarrow> addr \<Rightarrow> nat \<Rightarrow> jack_nframes \<Rightarrow> midi_event list \<Rightarrow>
   (memory \<times> addr \<times> midi_event list) option"
where
  "send_loop_ptr reserve p nframes h head lastp message port_send_count last_time buf =
     (if message = 0 then Some (h, head, buf)
      else
        (case h message of
           None \<Rightarrow> None
         | Some c \<Rightarrow>
             if port (content c) = p then
               (let m1 = (if 0 < port_send_count \<and> time (content c) \<le> last_time
                          then (content c)\<lparr>time := last_time + 1\<rparr> else content c);
                    h1 = h(message \<mapsto> c\<lparr>content := m1\<rparr>)
                in if time m1 < nframes then
                     (case (if lastp \<noteq> 0 then set_next h1 lastp (next_ptr c) else Some h1) of
                        None \<Rightarrow> None
                      | Some h2 \<Rightarrow>
                          send_loop_ptr reserve p nframes (h2(message := None))
                            (if message = head then next_ptr c else head) lastp (next_ptr c)
                            (port_send_count + 1) (time m1)
                            (if reserve buf (time m1) (length (data m1))
                             then buf @ [(time m1, data m1)] else buf))
                   else
                     send_loop_ptr reserve p nframes
                       (h1(message \<mapsto> c\<lparr>content := m1\<lparr>time := time m1 - nframes\<rparr>\<rparr>))
                       head message (next_ptr c) port_send_count last_time buf)
             else
               send_loop_ptr reserve p nframes h head message (next_ptr c)
                 port_send_count last_time buf))"

section \<open>Facts about 32-bit frame counts\<close>

lemma frame_succ_less: "(t :: 32 word) < n \<Longrightarrow> t < t + 1"
  by (metis (no_types, lifting) add.commute add_0 add_right_cancel inc_i leI
    olen_add_eqv order.order_iff_strict word_less_1 zero_neq_one)

lemma frame_succ_block: "(t :: 32 word) < n \<Longrightarrow> \<not> t + 1 < n \<Longrightarrow> t + 1 - n = 0"
  using inc_le order_le_imp_less_or_eq by auto


section \<open>The send loop\<close>

lemma send_loop_skips_others:
  "\<forall>x\<in>set pre. port x \<noteq> p \<Longrightarrow>
   send_loop reserve p n (pre @ rest) cnt lt buf =
     (case send_loop reserve p n rest cnt lt buf of (q, b) \<Rightarrow> (pre @ q, b))"
  by (induction pre) (auto split: prod.splits)

lemma send_loop_others_only:
  "\<forall>x\<in>set q. port x \<noteq> p \<Longrightarrow> send_loop reserve p n q cnt lt buf = (q, buf)"
  by (induction q) (auto split: prod.splits)

text \<open>
  Without a collision the loop is a filter: the messages of the port that fall into the
  block go to the buffer in queue order, all others stay, those of the port rebased.
\<close>

lemma send_loop_no_collision:
  "sorted_wrt (<) (map time (filter (\<lambda>x. port x = p) q)) \<Longrightarrow>
   (0 < cnt \<longrightarrow> (\<forall>x\<in>set q. port x = p \<longrightarrow> lt < time x)) \<Longrightarrow>
   (\<forall>b t s. reserve b t s) \<Longrightarrow>
   send_loop reserve p n q cnt lt buf =
     (map (rebase p n) (filter (\<lambda>x. port x \<noteq> p \<or> \<not> time x < n) q),
      buf @ map (\<lambda>x. (time x, data x)) (filter (\<lambda>x. port x = p \<and> time x < n) q))"
proof (induction q arbitrary: cnt lt buf)
  case Nil
  then show ?case by simp
next
  case (Cons m ms)
  show ?case
  proof (cases "port m = p")
    case False
    with Cons show ?thesis by (simp add: rebase_def)
  next
    case True
    from Cons.prems(2) True have nb: "\<not> (0 < cnt \<and> time m \<le> lt)" by auto
    from Cons.prems(1) True
    have srt: "sorted_wrt (<) (map time (filter (\<lambda>x. port x = p) ms))"
      and gt: "\<forall>x\<in>set ms. port x = p \<longrightarrow> time m < time x" by auto
    show ?thesis
    proof (cases "time m < n")
      case True
      have "send_loop reserve p n ms (cnt + 1) (time m) (buf @ [(time m, data m)]) =
          (map (rebase p n) (filter (\<lambda>x. port x \<noteq> p \<or> \<not> time x < n) ms),
           (buf @ [(time m, data m)]) @
             map (\<lambda>x. (time x, data x)) (filter (\<lambda>x. port x = p \<and> time x < n) ms))"
        using srt gt Cons.prems(3) by (intro Cons.IH) auto
      moreover have "reserve buf (time m) (length (data m))"
        using Cons.prems(3) by blast
      ultimately show ?thesis using True \<open>port m = p\<close> nb by auto
    next
      case False
      have "send_loop reserve p n ms cnt lt buf =
          (map (rebase p n) (filter (\<lambda>x. port x \<noteq> p \<or> \<not> time x < n) ms),
           buf @ map (\<lambda>x. (time x, data x)) (filter (\<lambda>x. port x = p \<and> time x < n) ms))"
        using srt Cons.prems(2,3) by (intro Cons.IH) auto
      with False \<open>port m = p\<close> nb show ?thesis by (auto simp: rebase_def)
    qed
  qed
qed

lemma send_loop_all_in_block:
  assumes "sorted_wrt (<) (map time (filter (\<lambda>x. port x = p) q))"
    and "\<forall>x\<in>set q. port x = p \<longrightarrow> time x < n"
    and "\<forall>b t s. reserve b t s"
  shows "send_loop reserve p n q 0 0 [] =
     (filter (\<lambda>x. port x \<noteq> p) q, map (\<lambda>x. (time x, data x)) (filter (\<lambda>x. port x = p) q))"
proof -
  have a: "filter (\<lambda>x. port x \<noteq> p \<or> \<not> time x < n) q = filter (\<lambda>x. port x \<noteq> p) q"
    using assms(2) by (intro filter_cong) auto
  have b: "filter (\<lambda>x. port x = p \<and> time x < n) q = filter (\<lambda>x. port x = p) q"
    using assms(2) by (intro filter_cong) auto
  have c: "map (rebase p n) (filter (\<lambda>x. port x \<noteq> p) q) = filter (\<lambda>x. port x \<noteq> p) q"
    by (induction q) (auto simp: rebase_def)
  have "send_loop reserve p n q 0 0 [] =
      (map (rebase p n) (filter (\<lambda>x. port x \<noteq> p \<or> \<not> time x < n) q),
       [] @ map (\<lambda>x. (time x, data x)) (filter (\<lambda>x. port x = p \<and> time x < n) q))"
    by (rule send_loop_no_collision) (use assms in auto)
  then show ?thesis unfolding a b c by simp
qed

section \<open>Insertion into the send queue\<close>

lemma send_queue_insert_splits:
  "send_queue_insert m q =
     takeWhile (\<lambda>x. \<not> time m < time x) q @ m # dropWhile (\<lambda>x. \<not> time m < time x) q"
  by (induction q) auto

lemma in_turn_others: "\<forall>x\<in>set q. port x \<noteq> p \<Longrightarrow> in_turn p q"
  unfolding in_turn_def by (induction q) auto

lemma in_turn_insert:
  assumes "in_turn p q"
  shows "in_turn p (send_queue_insert m q)"
  using assms unfolding in_turn_def
proof (induction q)
  case Nil
  then show ?case by simp
next
  case (Cons c q)
  show ?case
  proof (cases "time m < time c")
    case True
    have "\<forall>y\<in>set q. port y = p \<longrightarrow> time m \<le> time y"
      using Cons.prems True by fastforce
    with Cons.prems True show ?thesis by (simp add: less_imp_le)
  next
    case False
    have "set (send_queue_insert m q) = insert m (set q)"
      by (induction q) auto
    with Cons False show ?thesis by auto
  qed
qed

lemma in_turn_sorted:
  "in_turn p q \<Longrightarrow> sorted (map time (filter (\<lambda>x. port x = p) q))"
  unfolding in_turn_def sorted_wrt_map
  by (induction q) auto

lemma mine_send_queue_insert:
  "port m = p \<Longrightarrow>
   mset (filter (\<lambda>x. port x = p) (send_queue_insert m q)) =
     add_mset m (mset (filter (\<lambda>x. port x = p) q))"
  by (induction q) auto

lemma others_send_queue_insert:
  "port m = p \<Longrightarrow>
   filter (\<lambda>x. port x \<noteq> p) (send_queue_insert m q) = filter (\<lambda>x. port x \<noteq> p) q"
  by (induction q) auto

lemma fold_insert_facts:
  "\<forall>m\<in>set ms. port m = p \<Longrightarrow> in_turn p q \<Longrightarrow>
   in_turn p (fold send_queue_insert ms q) \<and>
   mset (filter (\<lambda>x. port x = p) (fold send_queue_insert ms q)) =
     mset ms + mset (filter (\<lambda>x. port x = p) q) \<and>
   filter (\<lambda>x. port x \<noteq> p) (fold send_queue_insert ms q) = filter (\<lambda>x. port x \<noteq> p) q"
  by (induction ms arbitrary: q)
     (auto simp: in_turn_insert mine_send_queue_insert others_send_queue_insert
           simp del: mset_filter)

lemma fold_insert_sorted:
  assumes "\<forall>m\<in>set ms. port m = p" "\<forall>x\<in>set q. port x \<noteq> p" "distinct (map time ms)"
  shows "filter (\<lambda>x. port x = p) (fold send_queue_insert ms q) = sort_key time ms"
    and "filter (\<lambda>x. port x \<noteq> p) (fold send_queue_insert ms q) = q"
proof -
  let ?r = "fold send_queue_insert ms q"
  have f: "in_turn p ?r"
    "mset (filter (\<lambda>x. port x = p) ?r) = mset ms + mset (filter (\<lambda>x. port x = p) q)"
    "filter (\<lambda>x. port x \<noteq> p) ?r = filter (\<lambda>x. port x \<noteq> p) q"
    using fold_insert_facts [OF assms(1) in_turn_others [OF assms(2)]] by auto
  have "filter (\<lambda>x. port x = p) q = []"
    using assms(2) by (induction q) auto
  with f(2) have ms: "mset ms = mset (filter (\<lambda>x. port x = p) ?r)" by simp
  have "inj_on time (set ms)" using assms(3) by (simp add: distinct_map)
  then show "filter (\<lambda>x. port x = p) ?r = sort_key time ms"
    using ms in_turn_sorted [OF f(1)] by (intro sort_key_inj_key_eq [symmetric]) auto
  show "filter (\<lambda>x. port x \<noteq> p) ?r = q"
    using f(3) assms(2) by simp
qed

section \<open>Ordering of the events that one drain writes\<close>

text \<open>
  C1, as amended. Messages of one output port with pairwise distinct frame times are
  put into the send queue by the insertion of \<^verbatim>\<open>Port_send\<close>, in any order, into a queue
  that holds messages of other ports only. If every time is less than the block size (and
  the server grants every reservation), one call of \<^verbatim>\<open>Client_send_messages_for_port\<close>
  writes all of them to the port buffer, in the order of their times, which is strictly
  increasing, and leaves the queue as it was before the insertions. The block size has to
  be greater than every time: a message whose time equals the block size stays queued.
\<close>

theorem send_then_drain_sorted:
  assumes "\<forall>m\<in>set ms. port m = p \<and> time m < nframes"
    and "distinct (map time ms)"
    and "\<forall>x\<in>set (midi_send_queue self). port x \<noteq> p"
    and "\<forall>b t s. reserve b t s"
  shows "Client_send_messages_for_port reserve True
           (self\<lparr>midi_send_queue := fold send_queue_insert ms (midi_send_queue self)\<rparr>) p nframes =
         (self, Some (map (\<lambda>m. (time m, data m)) (sort_key time ms))) \<and>
         sorted_wrt (<) (map time (sort_key time ms))"
proof -
  let ?q = "fold send_queue_insert ms (midi_send_queue self)"
  have mine: "filter (\<lambda>x. port x = p) ?q = sort_key time ms"
    and others: "filter (\<lambda>x. port x \<noteq> p) ?q = midi_send_queue self"
    using fold_insert_sorted [of ms p "midi_send_queue self"] assms(1-3) by auto
  have "sorted (map time (sort_key time ms))" by simp
  moreover have "distinct (map time (sort_key time ms))"
    using assms(2) by (simp add: distinct_map)
  ultimately have strict: "sorted_wrt (<) (map time (sort_key time ms))"
    by (simp add: strict_sorted_iff)
  have "\<forall>x\<in>set ?q. port x = p \<longrightarrow> x \<in> set (filter (\<lambda>x. port x = p) ?q)" by simp
  then have inblock: "\<forall>x\<in>set ?q. port x = p \<longrightarrow> time x < nframes"
    unfolding mine using assms(1) by auto
  have loop: "send_loop reserve p nframes ?q 0 0 [] =
      (midi_send_queue self, map (\<lambda>m. (time m, data m)) (sort_key time ms))"
    using send_loop_all_in_block [of p ?q nframes reserve] strict inblock assms(4)
    by (simp add: mine others)
  have "?q = [] \<Longrightarrow> midi_send_queue self = [] \<and> sort_key time ms = []"
    using mine others by (metis filter.simps(1))
  then have "Client_send_messages_for_port reserve True (self\<lparr>midi_send_queue := ?q\<rparr>) p nframes =
      (self, Some (map (\<lambda>m. (time m, data m)) (sort_key time ms)))"
    by (auto simp: Client_send_messages_for_port_def loop)
  then show ?thesis using strict by simp
qed

text \<open>
  Three messages sent out of order to port 7 while a message of port 9 is queued; the
  block has 512 frames.
\<close>

theorem send_then_drain_sorted_witness:
  "Client_send_messages_for_port (\<lambda>b t s. True) True
     (\<lparr>is_active = True, send_ports = [7],
       midi_send_queue = [\<lparr>port = 9, time = 5, data = [248]\<rparr>],
       receive_ports = [], midi_receive_queue = []\<rparr>
      \<lparr>midi_send_queue := fold send_queue_insert
         [\<lparr>port = 7, time = 300, data = [144, 64, 127]\<rparr>,
          \<lparr>port = 7, time = 0, data = [128, 64, 0]\<rparr>,
          \<lparr>port = 7, time = 511, data = [144, 60, 1]\<rparr>]
         [\<lparr>port = 9, time = 5, data = [248]\<rparr>]\<rparr>) 7 512 =
   (\<lparr>is_active = True, send_ports = [7],
      midi_send_queue = [\<lparr>port = 9, time = 5, data = [248]\<rparr>],
      receive_ports = [], midi_receive_queue = []\<rparr>,
    Some [(0, [128, 64, 0]), (300, [144, 64, 127]), (511, [144, 60, 1])])"
  using send_then_drain_sorted [of
     "[\<lparr>port = 7, time = 300, data = [144, 64, 127]\<rparr>,
       \<lparr>port = 7, time = 0, data = [128, 64, 0]\<rparr>,
       \<lparr>port = 7, time = 511, data = [144, 60, 1]\<rparr>]" 7 512
     "\<lparr>is_active = True, send_ports = [7],
       midi_send_queue = [\<lparr>port = 9, time = 5, data = [248]\<rparr>],
       receive_ports = [], midi_receive_queue = []\<rparr>" "\<lambda>b t s. True"]
  by simp

text \<open>
  The claim as it stands lets the block size equal the greatest time. One message with
  time 512 and a block of 512 frames: nothing is written, and the message stays queued
  with time 0.
\<close>

theorem drain_block_size_equal_max_time_counterexample:
  "(512 :: jack_nframes) \<ge> 512 \<and>
   Client_send_messages_for_port (\<lambda>b t s. True) True
     \<lparr>is_active = True, send_ports = [7],
      midi_send_queue =
        fold send_queue_insert [\<lparr>port = 7, time = 512, data = [144, 64, 127]\<rparr>] [],
      receive_ports = [], midi_receive_queue = []\<rparr> 7 512 =
   (\<lparr>is_active = True, send_ports = [7],
      midi_send_queue = [\<lparr>port = 7, time = 0, data = [144, 64, 127]\<rparr>],
      receive_ports = [], midi_receive_queue = []\<rparr>, Some [])"
  by (simp add: Client_send_messages_for_port_def)

section \<open>Messages with equal times\<close>

lemma send_queue_insert_twice:
  "time m2 = time m1 \<Longrightarrow>
   send_queue_insert m2 (send_queue_insert m1 q) =
     takeWhile (\<lambda>x. time x \<le> time m1) q @ m1 # m2 # dropWhile (\<lambda>x. time x \<le> time m1) q"
  by (induction q) (auto simp: not_less)

lemma send_loop_mine:
  "port m = p \<Longrightarrow>
   send_loop reserve p n (m # ms) cnt lt buf =
     (let t' = (if 0 < cnt \<and> time m \<le> lt then lt + 1 else time m)
      in if t' < n then
           send_loop reserve p n ms (cnt + 1) t'
             (if reserve buf t' (length (data m)) then buf @ [(t', data m)] else buf)
         else (case send_loop reserve p n ms cnt lt buf of
                 (q, b) \<Rightarrow> (m\<lparr>time := t' - n\<rparr> # q, b)))"
  by (simp add: Let_def)

text \<open>
  Whatever the queue holds and whatever the server grants, the frame offsets of the events
  that one run of the loop appends to the buffer increase strictly.
\<close>

lemma send_loop_strict:
  "(0 < cnt \<longrightarrow> lt < n) \<Longrightarrow> sorted_wrt (<) (map fst buf) \<Longrightarrow>
   (\<forall>e\<in>set buf. 0 < cnt \<and> fst e \<le> lt) \<Longrightarrow>
   sorted_wrt (<) (map fst (snd (send_loop reserve p n q cnt lt buf)))"
proof (induction q arbitrary: cnt lt buf)
  case Nil
  then show ?case by simp
next
  case (Cons m ms)
  have same: "sorted_wrt (<) (map fst (snd (send_loop reserve p n ms cnt lt buf)))"
    using Cons.prems by (intro Cons.IH) auto
  show ?case
  proof (cases "port m = p")
    case False
    then show ?thesis using same
      by (cases "send_loop reserve p n ms cnt lt buf") auto
  next
    case True
    define t' where "t' = (if 0 < cnt \<and> time m \<le> lt then lt + 1 else time m)"
    have step: "send_loop reserve p n (m # ms) cnt lt buf =
       (if t' < n then
           send_loop reserve p n ms (cnt + 1) t'
             (if reserve buf t' (length (data m)) then buf @ [(t', data m)] else buf)
         else (case send_loop reserve p n ms cnt lt buf of
                 (q, b) \<Rightarrow> (m\<lparr>time := t' - n\<rparr> # q, b)))"
      unfolding send_loop_mine [OF True] t'_def Let_def ..
    have later: "\<forall>e\<in>set buf. fst e < t'"
      using Cons.prems frame_succ_less [of lt n] unfolding t'_def by (auto simp: not_le)
    show ?thesis
    proof (cases "t' < n")
      case False
      then show ?thesis using same unfolding step
        by (cases "send_loop reserve p n ms cnt lt buf") auto
    next
      case inblock: True
      have "sorted_wrt (<) (map fst (snd (send_loop reserve p n ms (cnt + 1) t'
               (if reserve buf t' (length (data m)) then buf @ [(t', data m)] else buf))))"
        using inblock later Cons.prems(2)
        by (intro Cons.IH) (auto simp: sorted_wrt_append less_imp_le)
      then show ?thesis using inblock unfolding step by simp
    qed
  qed
qed

text \<open>
  C2, as amended. Two messages with the same time \<open>t\<close> are sent to the same port, into a
  queue that holds other ports' messages only, and the port is drained with a block size
  greater than \<open>t\<close>. If \<open>t + 1\<close> is inside the block too, the drain writes the first at
  \<open>t\<close> and the second, pushed forward by one frame, at \<open>t + 1\<close>. If \<open>t\<close> is the last frame
  of the block, the drain writes only the first; the second is kept in the queue with
  time 0, and the next drain writes it at offset 0, the frame after \<open>t\<close>. In every drain
  of every queue the offsets of the events written for the port increase strictly, so no
  two of them are equal.
\<close>

theorem equal_times_bumped:
  assumes "port m1 = p" and "port m2 = p" and "time m1 = t" and "time m2 = t"
    and "\<forall>x\<in>set (midi_send_queue self). port x \<noteq> p"
    and "\<forall>b t s. reserve b t s"
    and "t < nframes"
  shows "Client_send_messages_for_port reserve True
           (self\<lparr>midi_send_queue := fold send_queue_insert [m1, m2] (midi_send_queue self)\<rparr>)
           p nframes =
         (if t + 1 < nframes then (self, Some [(t, data m1), (t + 1, data m2)])
          else (self\<lparr>midi_send_queue :=
                  takeWhile (\<lambda>x. time x \<le> t) (midi_send_queue self) @
                  m2\<lparr>time := 0\<rparr> # dropWhile (\<lambda>x. time x \<le> t) (midi_send_queue self)\<rparr>,
                Some [(t, data m1)])) \<and>
         (\<not> t + 1 < nframes \<longrightarrow>
            Client_send_messages_for_port reserve True
              (self\<lparr>midi_send_queue :=
                 takeWhile (\<lambda>x. time x \<le> t) (midi_send_queue self) @
                 m2\<lparr>time := 0\<rparr> # dropWhile (\<lambda>x. time x \<le> t) (midi_send_queue self)\<rparr>)
              p nframes =
            (self, Some [(0, data m2)])) \<and>
         (case snd (Client_send_messages_for_port reserve' avail self' p' nframes') of
            None \<Rightarrow> True
          | Some b \<Rightarrow> sorted_wrt (<) (map fst b))"
proof -
  let ?q0 = "midi_send_queue self"
  let ?pre = "takeWhile (\<lambda>x. time x \<le> t) ?q0"
  let ?post = "dropWhile (\<lambda>x. time x \<le> t) ?q0"
  have q: "fold send_queue_insert [m1, m2] ?q0 = ?pre @ m1 # m2 # ?post"
    using send_queue_insert_twice [of m2 m1 ?q0] assms(3,4) by simp
  have pre: "\<forall>x\<in>set ?pre. port x \<noteq> p" and post: "\<forall>x\<in>set ?post. port x \<noteq> p"
    using assms(5) by (auto dest: set_takeWhileD set_dropWhileD)
  have r: "reserve b u s" for b u s using assms(6) by blast
  have tail: "send_loop reserve p nframes ?post cnt lt buf = (?post, buf)" for cnt lt buf
    using send_loop_others_only [OF post] .
  have "send_loop reserve p nframes (m1 # m2 # ?post) 0 0 [] =
      (if t + 1 < nframes then (?post, [(t, data m1), (t + 1, data m2)])
       else (m2\<lparr>time := 0\<rparr> # ?post, [(t, data m1)]))"
    using assms(1-4,7) frame_succ_block [of t nframes]
    by (simp add: send_loop_mine Let_def r tail)
  then have "send_loop reserve p nframes (?pre @ m1 # m2 # ?post) 0 0 [] =
      (if t + 1 < nframes then (?pre @ ?post, [(t, data m1), (t + 1, data m2)])
       else (?pre @ m2\<lparr>time := 0\<rparr> # ?post, [(t, data m1)]))"
    by (simp add: send_loop_skips_others [OF pre])
  then have first: "Client_send_messages_for_port reserve True
           (self\<lparr>midi_send_queue := fold send_queue_insert [m1, m2] ?q0\<rparr>) p nframes =
         (if t + 1 < nframes then (self, Some [(t, data m1), (t + 1, data m2)])
          else (self\<lparr>midi_send_queue := ?pre @ m2\<lparr>time := 0\<rparr> # ?post\<rparr>, Some [(t, data m1)]))"
    unfolding q by (simp add: Client_send_messages_for_port_def)
  have "sorted_wrt (<) (map fst (snd (send_loop reserve' p' nframes' (midi_send_queue self') 0 0 [])))"
    by (rule send_loop_strict) auto
  then have second: "case snd (Client_send_messages_for_port reserve' avail self' p' nframes') of
            None \<Rightarrow> True | Some b \<Rightarrow> sorted_wrt (<) (map fst b)"
    by (cases "send_loop reserve' p' nframes' (midi_send_queue self') 0 0 []")
       (auto simp: Client_send_messages_for_port_def)
  have "0 < nframes" using assms(7) by (simp add: word_greater_zero_iff) (metis word_not_simps(1))
  then have "send_loop reserve p nframes (m2\<lparr>time := 0\<rparr> # ?post) 0 0 [] =
      (?post, [(0, data m2)])"
    using assms(2) by (simp add: r tail)
  then have "send_loop reserve p nframes (?pre @ m2\<lparr>time := 0\<rparr> # ?post) 0 0 [] =
      (?pre @ ?post, [(0, data m2)])"
    by (simp add: send_loop_skips_others [OF pre])
  then have next_block: "Client_send_messages_for_port reserve True
      (self\<lparr>midi_send_queue := ?pre @ m2\<lparr>time := 0\<rparr> # ?post\<rparr>) p nframes =
      (self, Some [(0, data m2)])"
    by (simp add: Client_send_messages_for_port_def)
  show ?thesis using first next_block second by blast
qed

text \<open>Two note-ons at frame 10 of a block of 512 frames, and three messages at frame 3.\<close>

theorem equal_times_bumped_witness:
  "Client_send_messages_for_port (\<lambda>b t s. True) True
     (\<lparr>is_active = True, send_ports = [7],
       midi_send_queue = [\<lparr>port = 9, time = 5, data = [248]\<rparr>],
       receive_ports = [], midi_receive_queue = []\<rparr>
      \<lparr>midi_send_queue := fold send_queue_insert
         [\<lparr>port = 7, time = 10, data = [144, 64, 127]\<rparr>,
          \<lparr>port = 7, time = 10, data = [144, 67, 127]\<rparr>]
         [\<lparr>port = 9, time = 5, data = [248]\<rparr>]\<rparr>) 7 512 =
   (\<lparr>is_active = True, send_ports = [7],
      midi_send_queue = [\<lparr>port = 9, time = 5, data = [248]\<rparr>],
      receive_ports = [], midi_receive_queue = []\<rparr>,
    Some [(10, [144, 64, 127]), (11, [144, 67, 127])]) \<and>
   (case snd (Client_send_messages_for_port (\<lambda>b t s. True) True
        \<lparr>is_active = True, send_ports = [7],
         midi_send_queue = [\<lparr>port = 7, time = 3, data = [1]\<rparr>, \<lparr>port = 7, time = 3, data = [2]\<rparr>,
                            \<lparr>port = 7, time = 3, data = [3]\<rparr>],
         receive_ports = [], midi_receive_queue = []\<rparr> 7 512) of
      None \<Rightarrow> True
    | Some b \<Rightarrow> sorted_wrt (<) (map fst b))"
  using equal_times_bumped [of
     "\<lparr>port = 7, time = 10, data = [144, 64, 127]\<rparr>" 7
     "\<lparr>port = 7, time = 10, data = [144, 67, 127]\<rparr>" 10
     "\<lparr>is_active = True, send_ports = [7],
       midi_send_queue = [\<lparr>port = 9, time = 5, data = [248]\<rparr>],
       receive_ports = [], midi_receive_queue = []\<rparr>" "\<lambda>b t s. True" 512
     "\<lambda>b t s. True" True
     "\<lparr>is_active = True, send_ports = [7],
         midi_send_queue = [\<lparr>port = 7, time = 3, data = [1]\<rparr>, \<lparr>port = 7, time = 3, data = [2]\<rparr>,
                            \<lparr>port = 7, time = 3, data = [3]\<rparr>],
         receive_ports = [], midi_receive_queue = []\<rparr>" 7 512]
  by simp

text \<open>
  Both messages at frame 511 of a block of 512 frames: the drain writes one event, not two
  at 511 and 512.
\<close>

theorem equal_times_last_frame_counterexample:
  "Client_send_messages_for_port (\<lambda>b t s. True) True
     \<lparr>is_active = True, send_ports = [7],
      midi_send_queue = fold send_queue_insert
         [\<lparr>port = 7, time = 511, data = [144, 64, 127]\<rparr>,
          \<lparr>port = 7, time = 511, data = [144, 67, 127]\<rparr>] [],
      receive_ports = [], midi_receive_queue = []\<rparr> 7 512 =
   (\<lparr>is_active = True, send_ports = [7],
      midi_send_queue = [\<lparr>port = 7, time = 0, data = [144, 67, 127]\<rparr>],
      receive_ports = [], midi_receive_queue = []\<rparr>,
    Some [(511, [144, 64, 127])])"
  by (simp add: Client_send_messages_for_port_def)

section \<open>Messages for later blocks\<close>










section \<open>The receive queue\<close>

lemma Client_activate_queues:
  "Client_activate open_result activate_result client = (pending, client1) \<Longrightarrow>
   midi_send_queue client1 = midi_send_queue client \<and>
   midi_receive_queue client1 = midi_receive_queue client \<and>
   send_ports client1 = send_ports client \<and> receive_ports client1 = receive_ports client"
  by (auto simp: Client_activate_def split: option.splits if_splits)









section \<open>Errors of \<^verbatim>\<open>Port_send\<close> and \<^verbatim>\<open>Port_receive\<close>\<close>

text \<open>
  Whenever \<^verbatim>\<open>Port_send\<close> returns \<^verbatim>\<open>NULL\<close>, the send queue of the client is the one it was
  called with. In particular, when the arguments pass the checks, the client has a
  connection and the allocation of the message fails, it raises the error about memory.
\<close>

lemma Port_send_Raised_keeps_queue:
  "(fst (Port_send open_result activate_result malloc_ok sample_rate self data_arg secs client) =
      Raised e \<longrightarrow>
      midi_send_queue
        (snd (Port_send open_result activate_result malloc_ok sample_rate self data_arg secs
           client)) =
      midi_send_queue client) \<and>
   (PySequence_Check data_arg \<and> is_mine self \<and> flags self AND JackPortIsOutput \<noteq> 0 \<and>
    \<not> malloc_ok \<longrightarrow>
      Port_send None activate_result malloc_ok sample_rate self data_arg secs client =
        (Raised (JackError ''Failed to allocate memory for MIDI data''),
         snd (Client_activate None activate_result client)))"
  by (auto simp: Port_send_def Client_activate_def return_value_def
           split: option.splits sum.splits if_splits)

text \<open>
  C7. The claim asks that a call of \<^verbatim>\<open>Port_send\<close> that fails leaves the send queue as it
  was. \<^verbatim>\<open>Port_send\<close> calls \<^verbatim>\<open>Client_activate\<close> and goes on whatever the result. On a client
  that is not active yet, with a server that refuses the activation (\<^verbatim>\<open>jack_activate\<close>
  answers \<open>-1\<close>), \<^verbatim>\<open>Client_activate\<close> sets the exception and returns \<^verbatim>\<open>NULL\<close>; \<^verbatim>\<open>Port_send\<close>
  then inserts the message into the send queue and returns \<^verbatim>\<open>None\<close> with the exception
  still set. The caller is given an exception, and the queue holds a message more than
  before. \<^verbatim>\<open>Client_connect\<close> and \<^verbatim>\<open>Client_disconnect\<close> make the same call and return
  \<^verbatim>\<open>NULL\<close> at once when the client is not active afterwards.
\<close>

theorem Port_send_activation_failure_changes_queue:
  "Client_activate None (- 1)
     \<lparr>is_active = False, send_ports = [7], midi_send_queue = [],
      receive_ports = [], midi_receive_queue = []\<rparr> =
   (Some (JackError_i ''Failed to activate the JACK client (error %i)'' (- 1)),
    \<lparr>is_active = False, send_ports = [7], midi_send_queue = [],
      receive_ports = [], midi_receive_queue = []\<rparr>) \<and>
   Port_send None (- 1) True 48000 \<lparr>port_ptr = 7, is_mine = True, flags = 2\<rparr>
     (PyList [PyLong 144, PyLong 64, PyLong 127]) 0
     \<lparr>is_active = False, send_ports = [7], midi_send_queue = [],
      receive_ports = [], midi_receive_queue = []\<rparr> =
   (Returned_with_error PyNone
      (JackError_i ''Failed to activate the JACK client (error %i)'' (- 1)),
    \<lparr>is_active = False, send_ports = [7],
      midi_send_queue = [\<lparr>port = 7, time = 0, data = [144, 64, 127]\<rparr>],
      receive_ports = [], midi_receive_queue = []\<rparr>)"
  by (simp add: Port_send_def Client_activate_def return_value_def JackPortIsOutput_def
        Port_send_time_def double_to_nframes_def c_trunc_def to_double_def)

text \<open>
  C9. \<^verbatim>\<open>Port_send\<close> on a port whose flags lack \<^verbatim>\<open>JackPortIsOutput\<close> and \<^verbatim>\<open>Port_receive\<close> on
  a port whose flags lack \<^verbatim>\<open>JackPortIsInput\<close> raise an exception and return the client
  unchanged, both queues included.
\<close>

theorem wrong_direction_rejected:
  "(flags self AND JackPortIsOutput = 0 \<longrightarrow>
      Port_send open_result activate_result malloc_ok sample_rate self data_arg secs client =
        (Raised (if \<not> PySequence_Check data_arg then TypeError
                 else if \<not> is_mine self
                   then JackError ''Only ports created by jackpatch can send MIDI messages''
                 else JackError ''Only output ports can send MIDI messages''), client)) \<and>
   (flags self AND JackPortIsInput = 0 \<longrightarrow>
      Port_receive open_result activate_result sample_rate self client =
        (Raised (if \<not> is_mine self
                   then JackError ''Only ports created by jackpatch can receive MIDI messages''
                 else JackError ''Only input ports can receive MIDI messages''), client))"
  by (simp add: Port_send_def Port_receive_def)

theorem wrong_direction_rejected_witness:
  "Port_send None 0 True 48000 \<lparr>port_ptr = 3, is_mine = True, flags = 1\<rparr>
     (PyList [PyLong 144, PyLong 64, PyLong 127]) 0
     \<lparr>is_active = False, send_ports = [7], midi_send_queue = [\<lparr>port = 7, time = 5, data = [248]\<rparr>],
      receive_ports = [3], midi_receive_queue = [\<lparr>port = 3, time = 9, data = [250]\<rparr>]\<rparr> =
   (Raised (JackError ''Only output ports can send MIDI messages''),
     \<lparr>is_active = False, send_ports = [7], midi_send_queue = [\<lparr>port = 7, time = 5, data = [248]\<rparr>],
      receive_ports = [3], midi_receive_queue = [\<lparr>port = 3, time = 9, data = [250]\<rparr>]\<rparr>) \<and>
   Port_receive None 0 48000 \<lparr>port_ptr = 7, is_mine = True, flags = 2\<rparr>
     \<lparr>is_active = False, send_ports = [7], midi_send_queue = [\<lparr>port = 7, time = 5, data = [248]\<rparr>],
      receive_ports = [3], midi_receive_queue = [\<lparr>port = 3, time = 9, data = [250]\<rparr>]\<rparr> =
   (Raised (JackError ''Only input ports can receive MIDI messages''),
     \<lparr>is_active = False, send_ports = [7], midi_send_queue = [\<lparr>port = 7, time = 5, data = [248]\<rparr>],
      receive_ports = [3], midi_receive_queue = [\<lparr>port = 3, time = 9, data = [250]\<rparr>]\<rparr>)"
  using wrong_direction_rejected [of "\<lparr>port_ptr = 3, is_mine = True, flags = 1\<rparr>" None 0
      True 48000 "PyList [PyLong 144, PyLong 64, PyLong 127]" 0
      "\<lparr>is_active = False, send_ports = [7], midi_send_queue = [\<lparr>port = 7, time = 5, data = [248]\<rparr>],
      receive_ports = [3], midi_receive_queue = [\<lparr>port = 3, time = 9, data = [250]\<rparr>]\<rparr>"]
    wrong_direction_rejected [of "\<lparr>port_ptr = 7, is_mine = True, flags = 2\<rparr>" None 0
      True 48000 "PyList [PyLong 144, PyLong 64, PyLong 127]" 0
      "\<lparr>is_active = False, send_ports = [7], midi_send_queue = [\<lparr>port = 7, time = 5, data = [248]\<rparr>],
      receive_ports = [3], midi_receive_queue = [\<lparr>port = 3, time = 9, data = [250]\<rparr>]\<rparr>"]
  by (simp add: JackPortIsOutput_def JackPortIsInput_def)

section \<open>Payload bytes\<close>

text \<open>
  A call of \<^verbatim>\<open>Port_send\<close> that returns a value with no exception set has put exactly one
  message into the send queue, by \<open>send_queue_insert\<close>: the message of the port, with the
  converted time and the bytes of the payload.
\<close>

lemma Port_send_Returned:
  "Port_send open_result activate_result malloc_ok sample_rate self data_arg secs client =
     (Returned v, client') \<Longrightarrow>
   \<exists>t bytes.
     Port_send_time sample_rate secs = Some t \<and>
     send_data_loop None (PySequence_items data_arg) = Inr bytes \<and> v = PyNone \<and>
     client' = (snd (Client_activate open_result activate_result client))\<lparr>midi_send_queue :=
        send_queue_insert \<lparr>port = port_ptr self, time = t, data = bytes\<rparr>
          (midi_send_queue client)\<rparr>"
  by (auto simp: Port_send_def Client_activate_def return_value_def
           split: if_splits option.splits sum.splits)

lemma low_byte_mask: "(0xFF :: 64 word) = mask 8"
  by (simp add: mask_eq_exp_minus_1)

lemma low_byte: "ucast ((word_of_int v :: 64 word) AND 0xFF) = (word_of_int v :: 8 word)"
  unfolding low_byte_mask by (rule bit_word_eqI) (auto simp: bit_simps)

lemma low_byte_uint: "uint (word_of_int v :: 8 word) = v mod 256"
  by (simp add: uint_word_of_int)

lemma long_minus_one:
  assumes "- (2 ^ 63) \<le> v" and "v < 2 ^ 63"
  shows "(word_of_int v :: 64 word) = - 1 \<longleftrightarrow> v = - 1"
proof
  assume "(word_of_int v :: 64 word) = - 1"
  then have "sint (word_of_int v :: 64 word) = sint (- 1 :: 64 word)"
    by simp
  moreover have "sint (word_of_int v :: 64 word) = v"
    using assms by (simp add: sint_sbintrunc' signed_take_bit_int_eq_self)
  ultimately show "v = - 1"
    by simp
qed simp

lemma send_data_loop_bytes:
  "\<forall>v\<in>set vs. - (2 ^ 63) \<le> v \<and> v < 2 ^ 63 \<Longrightarrow> pending = None \<or> - 1 \<notin> set vs \<Longrightarrow>
   send_data_loop pending (map PyLong vs) = Inr (map word_of_int vs)"
  by (induction vs) (auto simp: low_byte long_minus_one)

text \<open>
  C10, as amended. When every item of the payload is an integer in the range of a C
  \<^verbatim>\<open>long\<close> (and the call passes its other checks, on a client with a connection; no
  item is \<open>-1\<close> if the activation has left an exception \<open>pending\<close>), \<^verbatim>\<open>Port_send\<close> queues a
  message whose
  bytes are the items reduced modulo 256: values outside 0..255 are cut to their low byte
  without any error. An integer outside the range of \<^verbatim>\<open>long\<close> is refused by
  \<^verbatim>\<open>PyLong_AsLong\<close>: the call raises and queues nothing.
\<close>

theorem payload_low_bytes:
  assumes "PySequence_Check data_arg" and "PySequence_items data_arg = map PyLong vs"
    and "\<forall>v\<in>set vs. - (2 ^ 63) \<le> v \<and> v < 2 ^ 63"
    and "is_mine self" and "flags self AND JackPortIsOutput \<noteq> 0" and "malloc_ok"
    and "Port_send_time sample_rate secs = Some t"
    and "Client_activate None activate_result client = (pending, client1)"
    and "pending = None \<or> - 1 \<notin> set vs"
  shows "Port_send None activate_result malloc_ok sample_rate self data_arg secs client =
           (return_value pending PyNone,
            client1\<lparr>midi_send_queue :=
               send_queue_insert
                 \<lparr>port = port_ptr self, time = t, data = map word_of_int vs\<rparr>
                 (midi_send_queue client)\<rparr>) \<and>
         map uint (map word_of_int vs :: 8 word list) = map (\<lambda>v. v mod 256) vs"
  using assms(1-7) Client_activate_queues [OF assms(8)]
    send_data_loop_bytes [OF assms(3,9)]
  by (simp add: Port_send_def assms(8) low_byte_uint)

theorem payload_low_bytes_witness:
  "Port_send None 0 True 48000 \<lparr>port_ptr = 7, is_mine = True, flags = 2\<rparr>
     (PyList [PyLong 400, PyLong (- 1), PyLong 127]) 0
     \<lparr>is_active = True, send_ports = [7], midi_send_queue = [],
      receive_ports = [], midi_receive_queue = []\<rparr> =
   (Returned PyNone,
    \<lparr>is_active = True, send_ports = [7],
      midi_send_queue = [\<lparr>port = 7, time = 0, data = [144, 255, 127]\<rparr>],
      receive_ports = [], midi_receive_queue = []\<rparr>) \<and>
   map uint ([144, 255, 127] :: 8 word list) = [400 mod 256, - 1 mod 256, 127 mod 256]"
  using payload_low_bytes [of "PyList [PyLong 400, PyLong (- 1), PyLong 127]" "[400, - 1, 127]"
     "\<lparr>port_ptr = 7, is_mine = True, flags = 2\<rparr>" True 48000 0 0 0
     "\<lparr>is_active = True, send_ports = [7], midi_send_queue = [],
      receive_ports = [], midi_receive_queue = []\<rparr>" None
     "\<lparr>is_active = True, send_ports = [7], midi_send_queue = [],
      receive_ports = [], midi_receive_queue = []\<rparr>"]
  by (simp add: JackPortIsOutput_def Port_send_time_def double_to_nframes_def c_trunc_def
        to_double_def Client_activate_def return_value_def)

text \<open>The payload \<open>[2 ^ 63]\<close> is rejected, not truncated.\<close>

theorem payload_beyond_long_counterexample:
  "Port_send None 0 True 48000 \<lparr>port_ptr = 7, is_mine = True, flags = 2\<rparr>
     (PyList [PyLong 9223372036854775808]) 0
     \<lparr>is_active = True, send_ports = [7], midi_send_queue = [],
      receive_ports = [], midi_receive_queue = []\<rparr> =
   (Raised OverflowError,
    \<lparr>is_active = True, send_ports = [7], midi_send_queue = [],
      receive_ports = [], midi_receive_queue = []\<rparr>)"
  by (simp add: Port_send_def JackPortIsOutput_def Port_send_time_def double_to_nframes_def
        c_trunc_def to_double_def Client_activate_def)

text \<open>
  When the activation has just failed, its exception is set while the loop runs, and the
  item \<open>-1\<close> is taken for a failed conversion: the call returns \<^verbatim>\<open>NULL\<close> with the exception
  of the activation and queues nothing.
\<close>

lemma minus_one_after_failed_activation:
  "Port_send None (- 1) True 48000 \<lparr>port_ptr = 7, is_mine = True, flags = 2\<rparr>
     (PyList [PyLong 144, PyLong (- 1)]) 0
     \<lparr>is_active = False, send_ports = [7], midi_send_queue = [],
      receive_ports = [], midi_receive_queue = []\<rparr> =
   (Raised (JackError_i ''Failed to activate the JACK client (error %i)'' (- 1)),
    \<lparr>is_active = False, send_ports = [7], midi_send_queue = [],
      receive_ports = [], midi_receive_queue = []\<rparr>)"
  by (simp add: Port_send_def JackPortIsOutput_def Port_send_time_def double_to_nframes_def
        c_trunc_def to_double_def Client_activate_def)

section \<open>Rounding to doubles\<close>

lemma round_even_bounds:
  "\<lfloor>x\<rfloor> \<le> round_even x" "round_even x \<le> \<lceil>x\<rceil>" "\<bar>of_int (round_even x) - x\<bar> \<le> 1 / 2"
proof -
  show "\<lfloor>x\<rfloor> \<le> round_even x" by (simp add: round_even_def Let_def)
  have "\<lceil>x\<rceil> = \<lfloor>x\<rfloor> + 1" if "x - of_int \<lfloor>x\<rfloor> \<noteq> 0"
    using that by (simp add: ceiling_altdef)
  then show "round_even x \<le> \<lceil>x\<rceil>"
    by (auto simp: round_even_def Let_def)
  show "\<bar>of_int (round_even x) - x\<bar> \<le> 1 / 2"
    unfolding round_even_def Let_def by (auto; linarith)
qed

lemma round_even_of_int [simp]: "round_even (of_int n) = n"
  by (simp add: round_even_def)

lemma binade_bounds:
  assumes "0 < x"
  shows "2 powi binade x \<le> x" and "x < 2 powi (binade x + 1)"
proof -
  have "2 powi binade x \<le> x \<and> x < 2 powi (binade x + 1)"
  proof (cases "1 \<le> x")
    case True
    define m where "m = \<lfloor>x\<rfloor>"
    have m: "1 \<le> m" "of_int m \<le> x" "x < of_int m + 1"
      using True by (simp_all add: m_def le_floor_iff)
    have b: "2 ^ nat (bitlen m - 1) \<le> m" "m < 2 ^ nat (bitlen m)"
      using bitlen_bounds [of m] m(1) by simp_all
    have pos: "1 \<le> bitlen m"
      using m(1) bitlen_nonneg [of m] bitlen_eq_zero_iff [of m] by linarith
    have e: "binade x = bitlen m - 1"
      using True by (simp add: binade_def m_def)
    have p1: "(2::real) powi (bitlen m - 1) = of_int (2 ^ nat (bitlen m - 1))"
      using pos by (simp add: power_int_def)
    have p2: "(2::real) powi (bitlen m - 1 + 1) = of_int (2 ^ nat (bitlen m))"
      using pos by (simp add: power_int_def)
    have "of_int (2 ^ nat (bitlen m - 1)) \<le> (of_int m :: real)"
      using b(1) by (rule iffD2 [OF of_int_le_iff])
    then have lo: "(2::real) ^ nat (bitlen m - 1) \<le> of_int m"
      by simp
    have "m + 1 \<le> 2 ^ nat (bitlen m)"
      using b(2) by simp
    then have "(of_int (m + 1) :: real) \<le> of_int (2 ^ nat (bitlen m))"
      by (rule iffD2 [OF of_int_le_iff])
    then have hi: "of_int m + 1 \<le> (2::real) ^ nat (bitlen m)"
      by simp
    have p1: "(2::real) powi (bitlen m - 1) = 2 ^ nat (bitlen m - 1)"
      using pos by (simp add: power_int_def)
    have p2: "(2::real) powi (bitlen m - 1 + 1) = 2 ^ nat (bitlen m)"
      using pos by (simp add: power_int_def)
    show ?thesis
      unfolding e p1 p2 using m(2,3) lo hi by linarith
  next
    case False
    define y where "y = 1 / x"
    define c where "c = \<lceil>y\<rceil> - 1"
    have y: "1 < y"
      using False assms by (simp add: y_def)
    have c: "1 \<le> c" "of_int c < y" "y \<le> of_int c + 1"
      using y by (simp_all add: c_def less_ceiling_iff ceiling_correct) 
    have b: "2 ^ nat (bitlen c - 1) \<le> c" "c < 2 ^ nat (bitlen c)"
      using bitlen_bounds [of c] c(1) by simp_all
    have pos: "1 \<le> bitlen c"
      using c(1) bitlen_nonneg [of c] bitlen_eq_zero_iff [of c] by linarith
    have e: "binade x = - bitlen c"
      using False by (simp add: binade_def c_def y_def)
    have "of_int (2 ^ nat (bitlen c - 1)) \<le> (of_int c :: real)"
      using b(1) by (rule iffD2 [OF of_int_le_iff])
    then have "(2::real) ^ nat (bitlen c - 1) \<le> of_int c"
      by simp
    then have lo: "2 ^ nat (bitlen c - 1) < y"
      using c(2) by linarith
    have "c + 1 \<le> 2 ^ nat (bitlen c)"
      using b(2) by simp
    then have "(of_int (c + 1) :: real) \<le> of_int (2 ^ nat (bitlen c))"
      by (rule iffD2 [OF of_int_le_iff])
    then have "of_int c + 1 \<le> (2::real) ^ nat (bitlen c)"
      by simp
    then have hi: "y \<le> 2 ^ nat (bitlen c)"
      using c(3) by linarith
    have x: "x = 1 / y"
      by (simp add: y_def)
    have p1: "(2::real) powi (- bitlen c) = 1 / 2 ^ nat (bitlen c)"
      using pos by (simp add: power_int_def field_simps)
    have p2: "(2::real) powi (- bitlen c + 1) = 1 / 2 ^ nat (bitlen c - 1)"
      using pos by (simp add: power_int_def field_simps)
    have "1 / 2 ^ nat (bitlen c) \<le> 1 / y"
      using hi y by (simp add: frac_le)
    moreover have "1 / y < 1 / 2 ^ nat (bitlen c - 1)"
      using lo y by (simp add: frac_less2)
    ultimately have "1 / 2 ^ nat (bitlen c) \<le> x \<and> x < 1 / 2 ^ nat (bitlen c - 1)"
      unfolding x by simp
    then show ?thesis
      unfolding e p1 p2 .
  qed
  then show "2 powi binade x \<le> x" and "x < 2 powi (binade x + 1)"
    by simp_all
qed

lemma powi_less_D: "(2::real) powi m < 2 powi n \<Longrightarrow> m < n"
  using power_int_increasing [of n m "2::real"] by (cases "m < n") simp_all

lemma powi_le_D: "(2::real) powi m \<le> 2 powi n \<Longrightarrow> m \<le> n"
  using power_int_strict_increasing [of n m "2::real"] by (cases "m \<le> n") simp_all

lemma to_double_error:
  assumes "x \<noteq> 0"
  shows "\<bar>to_double x - x\<bar> \<le> 2 powi (max (binade \<bar>x\<bar>) (- 1022) - 52) / 2"
proof -
  define u :: real where "u = 2 powi (max (binade \<bar>x\<bar>) (- 1022) - 52)"
  have u: "0 < u"
    by (simp add: u_def)
  have "to_double x - x = u * (of_int (round_even (x / u)) - x / u)"
    using assms u by (simp add: to_double_def Let_def u_def [symmetric] algebra_simps)
  then have "\<bar>to_double x - x\<bar> = u * \<bar>of_int (round_even (x / u)) - x / u\<bar>"
    using u by (simp add: abs_mult)
  also have "\<dots> \<le> u * (1 / 2)"
    using u round_even_bounds(3) [of "x / u"] by (intro mult_left_mono) simp_all
  finally show ?thesis
    by (simp add: u_def)
qed

lemma to_double_rel_error:
  assumes "2 powi (- 1022) \<le> \<bar>x\<bar>"
  shows "\<bar>to_double x - x\<bar> \<le> \<bar>x\<bar> / 2 ^ 53"
proof -
  have "0 < (2::real) powi (- 1022)"
    by simp
  then have pos: "0 < \<bar>x\<bar>"
    using assms by linarith
  have "2 powi (- 1022) < (2::real) powi (binade \<bar>x\<bar> + 1)"
    using assms binade_bounds(2) [OF pos] by linarith
  then have "- 1022 < binade \<bar>x\<bar> + 1"
    by (rule powi_less_D)
  then have m: "max (binade \<bar>x\<bar>) (- 1022) = binade \<bar>x\<bar>"
    by simp
  have "\<bar>to_double x - x\<bar> \<le> 2 powi (binade \<bar>x\<bar> - 52) / 2"
    using to_double_error [of x] pos unfolding m by auto
  also have "\<dots> = 2 powi binade \<bar>x\<bar> / 2 ^ 53"
    by (simp add: power_int_diff)
  also have "\<dots> \<le> \<bar>x\<bar> / 2 ^ 53"
    using binade_bounds(1) [OF pos] by (simp add: divide_right_mono)
  finally show ?thesis .
qed

lemma grid_ge:
  assumes "q \<le> 0" and "of_int n \<le> x"
  shows "of_int n \<le> (2::real) powi q * of_int (round_even (x / 2 powi q))"
proof -
  define k where "k = nat (- q)"
  have u: "(2::real) powi q = 1 / 2 ^ k"
    using assms(1) by (simp add: k_def power_int_def field_simps)
  have "of_int (n * 2 ^ k) \<le> x * 2 ^ k"
    using assms(2) by simp
  then have "n * 2 ^ k \<le> \<lfloor>x * 2 ^ k\<rfloor>"
    by (rule iffD2 [OF le_floor_iff])
  then have "n * 2 ^ k \<le> round_even (x * 2 ^ k)"
    using round_even_bounds(1) [of "x * 2 ^ k"] by linarith
  then have "of_int (n * 2 ^ k) \<le> (of_int (round_even (x * 2 ^ k)) :: real)"
    by (rule iffD2 [OF of_int_le_iff])
  then have "of_int n * 2 ^ k \<le> (of_int (round_even (x * 2 ^ k)) :: real)"
    by simp
  then show ?thesis
    unfolding u by (simp add: field_simps)
qed

lemma grid_le:
  assumes "q \<le> 0" and "x \<le> of_int n"
  shows "(2::real) powi q * of_int (round_even (x / 2 powi q)) \<le> of_int n"
proof -
  define k where "k = nat (- q)"
  have u: "(2::real) powi q = 1 / 2 ^ k"
    using assms(1) by (simp add: k_def power_int_def field_simps)
  have "x * 2 ^ k \<le> of_int (n * 2 ^ k)"
    using assms(2) by simp
  then have "\<lceil>x * 2 ^ k\<rceil> \<le> n * 2 ^ k"
    by (rule iffD2 [OF ceiling_le_iff])
  then have "round_even (x * 2 ^ k) \<le> n * 2 ^ k"
    using round_even_bounds(2) [of "x * 2 ^ k"] by linarith
  then have "(of_int (round_even (x * 2 ^ k)) :: real) \<le> of_int (n * 2 ^ k)"
    by (rule iffD2 [OF of_int_le_iff])
  then have "(of_int (round_even (x * 2 ^ k)) :: real) \<le> of_int n * 2 ^ k"
    by simp
  then show ?thesis
    unfolding u by (simp add: field_simps)
qed

lemma to_double_nonneg:
  assumes "0 \<le> x"
  shows "0 \<le> to_double x"
proof -
  have "0 \<le> round_even (x / 2 powi q)" for q
  proof -
    have "0 \<le> x / 2 powi q"
      using assms by simp
    then have "0 \<le> \<lfloor>x / 2 powi q\<rfloor>"
      by simp
    then show ?thesis
      using round_even_bounds(1) [of "x / 2 powi q"] by linarith
  qed
  then show ?thesis
    by (simp add: to_double_def Let_def)
qed

lemma to_double_ge_int:
  assumes "of_int n \<le> x" and "0 \<le> n" and "n \<le> 2 ^ 53"
  shows "of_int n \<le> to_double x"
proof (cases "n = 0")
  case True
  then show ?thesis
    using assms(1) to_double_nonneg [of x] by simp
next
  case False
  then have "1 \<le> n"
    using assms(2) by simp
  then have "(of_int 1 :: real) \<le> of_int n"
    by (rule iffD2 [OF of_int_le_iff])
  then have x: "1 \<le> x"
    using assms(1) by simp
  then have pos: "0 < x"
    by simp
  have "(2::real) powi 0 < 2 powi (binade x + 1)"
    using binade_bounds(2) [OF pos] x by simp
  then have e: "0 \<le> binade x"
    using powi_less_D by fastforce
  have d: "to_double x = 2 powi (binade x - 52) * of_int (round_even (x / 2 powi (binade x - 52)))"
    using pos e by (simp add: to_double_def Let_def max_def)
  show ?thesis
  proof (cases "binade x \<le> 52")
    case True
    then show ?thesis
      unfolding d using grid_ge [of "binade x - 52" n x] assms(1) by simp
  next
    case False
    define u :: real where "u = 2 powi (binade x - 52)"
    have "(2::real) powi 1 \<le> 2 powi (binade x - 52)"
      using False by (intro power_int_increasing) simp_all
    then have u: "2 \<le> u"
      by (simp add: u_def)
    have "2 powi binade x / u = (2::real) ^ 52"
      by (simp add: u_def power_int_diff)
    moreover have "2 powi binade x / u \<le> x / u"
      using binade_bounds(1) [OF pos] u by (intro divide_right_mono) simp_all
    ultimately have "(2::real) ^ 52 \<le> x / u"
      by simp
    then have "of_int (2 ^ 52) \<le> x / u"
      by simp
    then have "2 ^ 52 \<le> \<lfloor>x / u\<rfloor>"
      by (rule iffD2 [OF le_floor_iff])
    then have "2 ^ 52 \<le> round_even (x / u)"
      using round_even_bounds(1) [of "x / u"] by linarith
    then have "(of_int (2 ^ 52) :: real) \<le> of_int (round_even (x / u))"
      by (rule iffD2 [OF of_int_le_iff])
    then have r: "(2 ^ 52 :: real) \<le> of_int (round_even (x / u))"
      by simp
    have "(2::real) * 2 ^ 52 \<le> u * of_int (round_even (x / u))"
      using u r by (intro mult_mono) simp_all
    moreover have "(of_int n :: real) \<le> of_int (2 ^ 53)"
      using assms(3) by (rule iffD2 [OF of_int_le_iff])
    ultimately show ?thesis
      unfolding d u_def [symmetric] by simp
  qed
qed

lemma to_double_le_int:
  assumes "0 \<le> x" and "x \<le> of_int n" and "n \<le> 2 ^ 52"
  shows "to_double x \<le> of_int n"
proof (cases "x = 0")
  case True
  then show ?thesis
    using assms(2) by (simp add: to_double_def)
next
  case False
  then have pos: "0 < x"
    using assms(1) by simp
  have "(of_int n :: real) \<le> of_int (2 ^ 52)"
    using assms(3) by (rule iffD2 [OF of_int_le_iff])
  then have "2 powi binade x \<le> (2::real) powi 52"
    using binade_bounds(1) [OF pos] assms(2) by simp
  then have "binade x \<le> 52"
    by (rule powi_le_D)
  then have q: "max (binade x) (- 1022) - 52 \<le> 0"
    by simp
  show ?thesis
    using grid_le [OF q assms(2)] pos by (simp add: to_double_def Let_def)
qed

lemma to_double_small_error:
  assumes "0 \<le> x" and "x \<le> 2 ^ 32"
  shows "\<bar>to_double x - x\<bar> \<le> 1 / 2 ^ 21"
proof (cases "2 powi (- 1022) \<le> x")
  case True
  then have "\<bar>to_double x - x\<bar> \<le> x / 2 ^ 53"
    using to_double_rel_error [of x] assms(1) by simp
  also have "\<dots> \<le> 2 ^ 32 / 2 ^ 53"
    using assms(2) by (intro divide_right_mono) simp_all
  finally show ?thesis
    by simp
next
  case False
  show ?thesis
  proof (cases "x = 0")
    case True
    then show ?thesis
      by (simp add: to_double_def)
  next
    case nz: False
    then have pos: "0 < x"
      using assms(1) by simp
    have "2 powi binade x < (2::real) powi (- 1022)"
      using binade_bounds(1) [OF pos] False by linarith
    then have "binade x < - 1022"
      by (rule powi_less_D)
    then have m: "max (binade \<bar>x\<bar>) (- 1022) - 52 = - 1074"
      using pos by simp
    have "\<bar>to_double x - x\<bar> \<le> 2 powi (- 1074) / 2"
      using to_double_error [OF nz] unfolding m .
    also have "\<dots> \<le> 2 powi (- 20) / 2"
      by (intro divide_right_mono power_int_increasing) simp_all
    also have "\<dots> = 1 / 2 ^ 21"
      by (simp add: power_int_minus)
    finally show ?thesis .
  qed
qed

section \<open>Seconds and frames\<close>

lemma trunc_frames:
  assumes "0 \<le> x" "x < 2 ^ 32"
  shows "double_to_nframes x = Some (word_of_int \<lfloor>x\<rfloor>)"
    and "unat (word_of_int \<lfloor>x\<rfloor> :: 32 word) = nat \<lfloor>x\<rfloor>"
proof -
  have "0 \<le> \<lfloor>x\<rfloor>" "\<lfloor>x\<rfloor> < 2 ^ 32"
    using assms by (auto simp: floor_less_iff)
  then show "double_to_nframes x = Some (word_of_int \<lfloor>x\<rfloor>)"
    using assms(1) by (simp add: double_to_nframes_def c_trunc_def)
  show "unat (word_of_int \<lfloor>x\<rfloor> :: 32 word) = nat \<lfloor>x\<rfloor>"
    using \<open>0 \<le> \<lfloor>x\<rfloor>\<close> \<open>\<lfloor>x\<rfloor> < 2 ^ 32\<close>
    by (simp add: unat_eq_nat_uint uint_word_of_int)
qed

lemma Transport_set_time_clamps:
  "secs < 0 \<Longrightarrow> Transport_set_time sample_rate secs = Transport_set_time sample_rate 0"
  by (simp add: Transport_set_time_def)

text \<open>
  C5. The claim asks that a negative time is replaced by 0 before the conversion to
  frames, in \<^verbatim>\<open>Port_send\<close> as in the setter of the transport time. The setter does so
  (\<open>Transport_set_time_clamps\<close>); \<^verbatim>\<open>Port_send\<close> converts the negative product as it is. At
  \<open>-1\<close> second and 48000 frames per second the setter locates frame 0, while the cast in
  \<^verbatim>\<open>Port_send\<close> is applied to \<open>-48000\<close>, outside the range of \<^verbatim>\<open>jack_nframes_t\<close>; at 0
  seconds \<^verbatim>\<open>Port_send\<close> queues the message for frame 0.
\<close>

theorem Port_send_negative_time_not_clamped:
  "Port_send_time 48000 (- 1) = None \<and> Port_send_time 48000 0 = Some 0 \<and>
   Transport_set_time 48000 (- 1) = Some 0 \<and>
   Port_send None 0 True 48000 \<lparr>port_ptr = 7, is_mine = True, flags = 2\<rparr>
     (PyList [PyLong 144, PyLong 64, PyLong 127]) (- 1)
     \<lparr>is_active = True, send_ports = [7], midi_send_queue = [],
      receive_ports = [], midi_receive_queue = []\<rparr> =
   (Undefined,
    \<lparr>is_active = True, send_ports = [7], midi_send_queue = [],
      receive_ports = [], midi_receive_queue = []\<rparr>) \<and>
   Port_send None 0 True 48000 \<lparr>port_ptr = 7, is_mine = True, flags = 2\<rparr>
     (PyList [PyLong 144, PyLong 64, PyLong 127]) 0
     \<lparr>is_active = True, send_ports = [7], midi_send_queue = [],
      receive_ports = [], midi_receive_queue = []\<rparr> =
   (Returned PyNone,
    \<lparr>is_active = True, send_ports = [7],
      midi_send_queue = [\<lparr>port = 7, time = 0, data = [144, 64, 127]\<rparr>],
      receive_ports = [], midi_receive_queue = []\<rparr>)"
  by (simp add: Port_send_def JackPortIsOutput_def Port_send_time_def Transport_set_time_def
        double_to_nframes_def c_trunc_def Client_activate_def return_value_def
        to_double_def binade_def compute_bitlen round_even_def Let_def)

text \<open>
  C8, as amended. \<open>s \<ge> 0\<close> is a time in seconds and \<open>r > 0\<close> a sample rate such that the
  double product of \<open>s\<close> and \<open>r\<close> is less than \<open>2 ^ 32\<close>. Then \<^verbatim>\<open>Port_send\<close> stores the
  integral part of that product as the frame count, and the time that \<^verbatim>\<open>Port_receive\<close>
  computes from the frame count differs from \<open>s\<close> by less than \<open>(1 + 2 ^ (- 20)) / r\<close>: one
  sample period and the rounding of the double product and of the double quotient.
\<close>

theorem seconds_frames_round_trip:
  assumes "0 \<le> s" and "sample_rate \<noteq> 0"
    and "to_double (s * real (unat sample_rate)) < 2 ^ 32"
  shows "case Port_send_time sample_rate s of
           None \<Rightarrow> False
         | Some f \<Rightarrow>
             unat f = nat \<lfloor>to_double (s * real (unat sample_rate))\<rfloor> \<and>
             \<bar>Port_receive_time sample_rate f - s\<bar> <
               (1 + 1 / 2 ^ 20) / real (unat sample_rate)"
proof -
  define r where "r = real (unat sample_rate)"
  define P where "P = s * r"
  define F where "F = to_double P"
  define f where "f = \<lfloor>F\<rfloor>"
  define Q where "Q = of_int f / r"
  define B where "B = to_double Q"
  have "unat sample_rate \<noteq> 0"
    using assms(2) by (simp add: unat_eq_0)
  then have "1 \<le> unat sample_rate"
    by simp
  then have "real 1 \<le> real (unat sample_rate)"
    by (rule iffD2 [OF of_nat_le_iff])
  then have r1: "1 \<le> r"
    unfolding r_def by simp
  have "unat sample_rate < 2 ^ 32"
    using unsigned_less [of sample_rate, where 'a = nat] by simp
  then have "real (unat sample_rate) < real (2 ^ 32)"
    by (rule iffD2 [OF of_nat_less_iff])
  then have r2: "r < 2 ^ 32"
    unfolding r_def by simp
  have P0: "0 \<le> P"
    using assms(1) r1 by (simp add: P_def)
  have F32: "F < 2 ^ 32"
    using assms(3) by (simp add: F_def P_def r_def)
  have F0: "0 \<le> F"
    unfolding F_def using P0 by (rule to_double_nonneg)
  have P32: "P \<le> 2 ^ 32"
  proof (rule ccontr)
    assume "\<not> P \<le> 2 ^ 32"
    then have "of_int (2 ^ 32) \<le> P"
      by simp
    then have "of_int (2 ^ 32) \<le> F"
      unfolding F_def by (rule to_double_ge_int) simp_all
    then show False
      using F32 by simp
  qed
  have eF: "\<bar>F - P\<bar> \<le> 1 / 2 ^ 21"
    unfolding F_def using P0 P32 by (rule to_double_small_error)
  have f0: "0 \<le> f" and fF: "of_int f \<le> F" "F < of_int f + 1"
    using F0 by (simp_all add: f_def)
  have f32: "(of_int f :: real) < 2 ^ 32"
    using fF(1) F32 by linarith
  note tf = trunc_frames [OF F0 F32]
  have send: "Port_send_time sample_rate s = Some (word_of_int f)"
    unfolding Port_send_time_def f_def F_def P_def r_def by (rule tf(1) [unfolded F_def P_def r_def])
  have un: "unat (word_of_int f :: 32 word) = nat f"
    unfolding f_def by (rule tf(2))
  have cast: "real (nat f) = of_int f"
    using f0 by simp
  have recv: "Port_receive_time sample_rate (word_of_int f) = B"
    unfolding Port_receive_time_def un cast B_def Q_def r_def ..
  have rQ: "r * Q = of_int f"
    using r1 by (simp add: Q_def)
  have eB: "r * \<bar>B - Q\<bar> \<le> 1 / 2 ^ 21"
  proof (cases "f = 0")
    case True
    then show ?thesis
      by (simp add: B_def Q_def to_double_def)
  next
    case False
    then have "1 \<le> f"
      using f0 by simp
    then have "(of_int 1 :: real) \<le> of_int f"
      by (rule iffD2 [OF of_int_le_iff])
    then have Qr: "1 / r \<le> Q"
      unfolding Q_def using r1 by (intro divide_right_mono) simp_all
    have "0 < 1 / r"
      using r1 by simp
    then have Qpos: "0 < Q"
      using Qr by linarith
    have "1 / 2 ^ 32 < 1 / r"
      using r1 r2 by (intro divide_strict_left_mono) simp_all
    moreover have "(2::real) powi (- 1022) \<le> 2 powi (- 32)"
      by (intro power_int_increasing) simp_all
    then have "(2::real) powi (- 1022) \<le> 1 / 2 ^ 32"
      by (simp add: power_int_minus)
    ultimately have n: "2 powi (- 1022) \<le> \<bar>Q\<bar>"
      using Qr by linarith
    have "\<bar>B - Q\<bar> \<le> \<bar>Q\<bar> / 2 ^ 53"
      unfolding B_def using n by (rule to_double_rel_error)
    then have "r * \<bar>B - Q\<bar> \<le> r * (Q / 2 ^ 53)"
      using r1 Qpos by (intro mult_left_mono) simp_all
    also have "\<dots> = of_int f / 2 ^ 53"
      using rQ by simp
    also have "\<dots> \<le> 2 ^ 32 / 2 ^ 53"
      using f32 by (intro divide_right_mono) simp_all
    finally show ?thesis
      by simp
  qed
  have "r * (B - s) = r * (B - Q) + (of_int f - P)"
    using rQ by (simp add: P_def algebra_simps)
  moreover have "\<bar>r * (B - Q)\<bar> \<le> 1 / 2 ^ 21"
    using eB r1 by (simp add: abs_mult)
  ultimately have "\<bar>r * (B - s)\<bar> < 1 + 1 / 2 ^ 20"
    using eF fF by (simp add: abs_if split: if_splits)
  then have "r * \<bar>B - s\<bar> < 1 + 1 / 2 ^ 20"
    using r1 by (simp add: abs_mult)
  then have "\<bar>B - s\<bar> * r < 1 + 1 / 2 ^ 20"
    by (simp only: mult.commute)
  then have "\<bar>B - s\<bar> < (1 + 1 / 2 ^ 20) / r"
    using r1 by (intro iffD2 [OF pos_less_divide_eq]) simp_all
  then have "unat (word_of_int f :: 32 word) = nat f \<and>
      \<bar>Port_receive_time sample_rate (word_of_int f) - s\<bar> < (1 + 1 / 2 ^ 20) / r"
    unfolding recv using un by (intro conjI)
  then show ?thesis
    unfolding send option.case f_def F_def P_def r_def .
qed

text \<open>
  The witness is the double next to 0.7 at 48000 frames per second: the double product is
  33600 (the exact product lies below it), and the way back gives the same double.
\<close>

theorem seconds_frames_round_trip_witness:
  "case Port_send_time 48000 (3152519739159347 / 4503599627370496) of
     None \<Rightarrow> False
   | Some f \<Rightarrow>
       f = 33600 \<and>
       Port_receive_time 48000 f = 3152519739159347 / 4503599627370496"
  using seconds_frames_round_trip [of "3152519739159347 / 4503599627370496" 48000]
  by (simp add: Port_send_time_def Port_receive_time_def double_to_nframes_def c_trunc_def
        to_double_def binade_def compute_bitlen round_even_def Let_def)

text \<open>
  The claim as it stands bounds the difference by one sample period, for every \<open>s \<ge> 0\<close>
  and \<open>r > 0\<close>. The double \<open>6680952181909415 / 2 ^ 51\<close> (about 2.9669 seconds) at 44100
  frames per second gives frame 130841, and the time computed from that frame is more
  than \<open>1 / 44100\<close> below it. The double \<open>3843071682022823 / 2 ^ 65\<close> (just below
  \<open>5 / 48000\<close> seconds) at 48000 frames per second gives frame 5, and the time computed
  from it is greater. The double \<open>6148914691236517 / 2 ^ 36\<close> (about 89478.485 seconds):
  the exact product with 48000 is less than \<open>2 ^ 32\<close>, the double product is \<open>2 ^ 32\<close>,
  and the cast is out of range, as it is for 100000 seconds.
\<close>

theorem seconds_frames_rounding_counterexample:
  "to_double (6680952181909415 / 2251799813685248) = 6680952181909415 / 2251799813685248 \<and>
   Port_send_time 44100 (6680952181909415 / 2251799813685248) = Some 130841 \<and>
   Port_receive_time 44100 130841 = 3340450560344575 / 1125899906842624 \<and>
   1 / real (unat (44100 :: jack_nframes)) <
     6680952181909415 / 2251799813685248 - Port_receive_time 44100 130841 \<and>
   to_double (3843071682022823 / 36893488147419103232) =
     3843071682022823 / 36893488147419103232 \<and>
   Port_send_time 48000 (3843071682022823 / 36893488147419103232) = Some 5 \<and>
   3843071682022823 / 36893488147419103232 < Port_receive_time 48000 5 \<and>
   to_double (6148914691236517 / 68719476736) = 6148914691236517 / 68719476736 \<and>
   6148914691236517 / 68719476736 * real (unat (48000 :: jack_nframes)) < 2 ^ 32 \<and>
   Port_send_time 48000 (6148914691236517 / 68719476736) = None \<and>
   Port_send_time 48000 100000 = None"
  by (simp add: Port_send_time_def Port_receive_time_def double_to_nframes_def c_trunc_def
        to_double_def binade_def compute_bitlen round_even_def Let_def)

section \<open>Ports beyond the limit\<close>

lemma send_loop_keeps_other_port:
  "p \<noteq> p' \<Longrightarrow>
   filter (\<lambda>x. port x = p) (fst (send_loop reserve p' n q cnt lt buf)) =
     filter (\<lambda>x. port x = p) q"
proof (induction q arbitrary: cnt lt buf)
  case Nil
  then show ?case by simp
next
  case (Cons m ms)
  show ?case
  proof (cases "port m = p'")
    case False
    then show ?thesis
      using Cons.IH [OF Cons.prems, of cnt lt buf]
      by (cases "send_loop reserve p' n ms cnt lt buf") auto
  next
    case True
    define t' where "t' = (if 0 < cnt \<and> time m \<le> lt then lt + 1 else time m)"
    have step: "send_loop reserve p' n (m # ms) cnt lt buf =
       (if t' < n then
           send_loop reserve p' n ms (cnt + 1) t'
             (if reserve buf t' (length (data m)) then buf @ [(t', data m)] else buf)
         else (case send_loop reserve p' n ms cnt lt buf of
                 (q, b) \<Rightarrow> (m\<lparr>time := t' - n\<rparr> # q, b)))"
      unfolding send_loop_mine [OF True] t'_def Let_def ..
    show ?thesis
    proof (cases "t' < n")
      case True
      then show ?thesis unfolding step
        using Cons.IH [OF Cons.prems] \<open>port m = p'\<close> Cons.prems by simp
    next
      case False
      then show ?thesis unfolding step
        using Cons.IH [OF Cons.prems, of cnt lt buf] \<open>port m = p'\<close> Cons.prems
        by (cases "send_loop reserve p' n ms cnt lt buf") auto
    qed
  qed
qed

lemma Client_send_keeps_other_port:
  assumes "p \<noteq> p'"
  shows "filter (\<lambda>x. port x = p)
           (midi_send_queue (fst (Client_send_messages_for_port reserve ok self p' n))) =
         filter (\<lambda>x. port x = p) (midi_send_queue self)"
    and "midi_receive_queue (fst (Client_send_messages_for_port reserve ok self p' n)) =
         midi_receive_queue self"
    and "receive_ports (fst (Client_send_messages_for_port reserve ok self p' n)) =
         receive_ports self"
  using send_loop_keeps_other_port [OF assms, of reserve n "midi_send_queue self" 0 0 "[]"]
  by (cases "send_loop reserve p' n (midi_send_queue self) 0 0 []";
      simp add: Client_send_messages_for_port_def)+

lemma send_ports_loop_unmanaged:
  "p \<notin> set ps \<Longrightarrow>
   filter (\<lambda>x. port x = p)
     (midi_send_queue (fst (send_ports_loop reserve port_buffer n ps self))) =
     filter (\<lambda>x. port x = p) (midi_send_queue self) \<and>
   midi_receive_queue (fst (send_ports_loop reserve port_buffer n ps self)) =
     midi_receive_queue self \<and>
   receive_ports (fst (send_ports_loop reserve port_buffer n ps self)) = receive_ports self \<and>
   p \<notin> fst ` set (snd (send_ports_loop reserve port_buffer n ps self))"
proof (induction ps arbitrary: self)
  case Nil
  then show ?case by simp
next
  case (Cons a ps)
  obtain self1 b where one:
    "Client_send_messages_for_port reserve (port_buffer a) self a n = (self1, b)"
    by (cases "Client_send_messages_for_port reserve (port_buffer a) self a n")
  obtain self2 bs where rest: "send_ports_loop reserve port_buffer n ps self1 = (self2, bs)"
    by (cases "send_ports_loop reserve port_buffer n ps self1")
  have "p \<noteq> a" and "p \<notin> set ps" using Cons.prems by auto
  from Client_send_keeps_other_port [OF \<open>p \<noteq> a\<close>, of reserve "port_buffer a" self n]
    Cons.IH [OF \<open>p \<notin> set ps\<close>, of self1]
  show ?case using \<open>p \<noteq> a\<close> by (simp add: one rest)
qed

lemma receive_loop_keeps_other_port:
  "p \<noteq> p' \<Longrightarrow>
   filter (\<lambda>x. port x = p) (receive_loop malloc_ok p' start evs i q) =
     filter (\<lambda>x. port x = p) q"
  by (induction evs arbitrary: i q) (auto split: option.splits)

lemma receive_ports_loop_unmanaged:
  "p \<notin> set ps \<Longrightarrow>
   filter (\<lambda>x. port x = p)
     (midi_receive_queue (receive_ports_loop malloc_ok port_events start ps self)) =
     filter (\<lambda>x. port x = p) (midi_receive_queue self) \<and>
   midi_send_queue (receive_ports_loop malloc_ok port_events start ps self) =
     midi_send_queue self"
proof (induction ps arbitrary: self)
  case Nil
  then show ?case by simp
next
  case (Cons a ps)
  let ?self1 = "Client_receive_messages_for_port (malloc_ok a) (port_events a) start self a"
  have "p \<noteq> a" and "p \<notin> set ps" using Cons.prems by auto
  have "filter (\<lambda>x. port x = p) (midi_receive_queue ?self1) =
      filter (\<lambda>x. port x = p) (midi_receive_queue self)"
    and "midi_send_queue ?self1 = midi_send_queue self"
    using receive_loop_keeps_other_port [OF \<open>p \<noteq> a\<close>]
    by (auto simp: Client_receive_messages_for_port_def split: option.splits)
  then show ?case using Cons.IH [OF \<open>p \<notin> set ps\<close>, of ?self1] by simp
qed

lemma Client_process_unmanaged:
  assumes "p \<notin> set (send_ports self)" and "p \<notin> set (receive_ports self)"
    and "Client_process reserve port_buffer malloc_ok port_events start n self =
           (status, self', written)"
  shows "filter (\<lambda>x. port x = p) (midi_send_queue self') =
           filter (\<lambda>x. port x = p) (midi_send_queue self)"
    and "filter (\<lambda>x. port x = p) (midi_receive_queue self') =
           filter (\<lambda>x. port x = p) (midi_receive_queue self)"
    and "p \<notin> fst ` set written"
proof -
  obtain self1 w where one:
    "send_ports_loop reserve port_buffer n (send_ports self) self = (self1, w)"
    by (cases "send_ports_loop reserve port_buffer n (send_ports self) self")
  note s = send_ports_loop_unmanaged [OF assms(1), of reserve port_buffer n self, unfolded one]
  have rp: "p \<notin> set (receive_ports self1)" using s assms(2) by simp
  note r = receive_ports_loop_unmanaged [OF rp, of malloc_ok port_events start self1]
  have self': "self' = receive_ports_loop malloc_ok port_events start (receive_ports self1) self1"
    and w: "written = w"
    using assms(3) by (auto simp: Client_process_def one)
  show "filter (\<lambda>x. port x = p) (midi_send_queue self') =
           filter (\<lambda>x. port x = p) (midi_send_queue self)"
    using s r by (simp add: self')
  show "filter (\<lambda>x. port x = p) (midi_receive_queue self') =
           filter (\<lambda>x. port x = p) (midi_receive_queue self)"
    using s r by (simp add: self')
  show "p \<notin> fst ` set written" using s by (simp add: w)
qed

text \<open>
  C6, as amended. \<^verbatim>\<open>Port_init\<close> for a new port that the server registers returns 0, the
  success status, also when the client already manages \<^verbatim>\<open>MAX_PORTS_PER_CLIENT\<close> ports of
  that direction: it then issues a warning and leaves the client as it is, so the lists of
  managed ports never grow beyond the limit. Below the limit the port is appended to the list
  of its direction (the input list when both direction bits are set). A port left out that
  way is not served by \<^verbatim>\<open>Client_process\<close>: its messages in the send queue stay where
  they are, nothing is written to its buffer and no message is received for it.
\<close>

theorem Port_init_over_limit:
  assumes "opened" and "by_name = NULL" and "registered \<noteq> NULL"
    and "Port_init opened by_name registered server_flags self client flags_arg =
           (status, warned, self', client')"
  shows "status = 0 \<and>
         self' = self\<lparr>port_ptr := registered, is_mine := True, flags := server_flags\<rparr> \<and>
         (flags_arg AND JackPortIsInput \<noteq> 0 \<longrightarrow>
            (if MAX_PORTS_PER_CLIENT \<le> length (receive_ports client)
             then warned \<and> client' = client
             else \<not> warned \<and>
                  client' = client\<lparr>receive_ports := receive_ports client @ [registered]\<rparr>)) \<and>
         (flags_arg AND JackPortIsInput = 0 \<and> flags_arg AND JackPortIsOutput \<noteq> 0 \<longrightarrow>
            (if MAX_PORTS_PER_CLIENT \<le> length (send_ports client)
             then warned \<and> client' = client
             else \<not> warned \<and>
                  client' = client\<lparr>send_ports := send_ports client @ [registered]\<rparr>)) \<and>
         (length (receive_ports client) \<le> MAX_PORTS_PER_CLIENT \<longrightarrow>
            length (receive_ports client') \<le> MAX_PORTS_PER_CLIENT) \<and>
         (length (send_ports client) \<le> MAX_PORTS_PER_CLIENT \<longrightarrow>
            length (send_ports client') \<le> MAX_PORTS_PER_CLIENT) \<and>
         (warned \<and> registered \<notin> set (send_ports client) \<union> set (receive_ports client) \<longrightarrow>
            (case Client_process reserve port_buffer malloc_ok port_events start_frame nframes
                    client' of
               (result, client'', written) \<Rightarrow>
                 filter (\<lambda>x. port x = registered) (midi_send_queue client'') =
                   filter (\<lambda>x. port x = registered) (midi_send_queue client') \<and>
                 filter (\<lambda>x. port x = registered) (midi_receive_queue client'') =
                   filter (\<lambda>x. port x = registered) (midi_receive_queue client') \<and>
                 registered \<notin> fst ` set written))"
proof -
  have init: "status = 0"
    "self' = self\<lparr>port_ptr := registered, is_mine := True, flags := server_flags\<rparr>"
    "flags_arg AND JackPortIsInput \<noteq> 0 \<longrightarrow>
            (if MAX_PORTS_PER_CLIENT \<le> length (receive_ports client)
             then warned \<and> client' = client
             else \<not> warned \<and>
                  client' = client\<lparr>receive_ports := receive_ports client @ [registered]\<rparr>)"
    "flags_arg AND JackPortIsInput = 0 \<and> flags_arg AND JackPortIsOutput \<noteq> 0 \<longrightarrow>
            (if MAX_PORTS_PER_CLIENT \<le> length (send_ports client)
             then warned \<and> client' = client
             else \<not> warned \<and>
                  client' = client\<lparr>send_ports := send_ports client @ [registered]\<rparr>)"
    "flags_arg AND JackPortIsInput = 0 \<and> flags_arg AND JackPortIsOutput = 0 \<longrightarrow>
       \<not> warned \<and> client' = client"
    using assms by (auto simp: Port_init_def split: if_splits)
  have bound_r: "length (receive_ports client) \<le> MAX_PORTS_PER_CLIENT \<longrightarrow>
            length (receive_ports client') \<le> MAX_PORTS_PER_CLIENT"
    and bound_s: "length (send_ports client) \<le> MAX_PORTS_PER_CLIENT \<longrightarrow>
            length (send_ports client') \<le> MAX_PORTS_PER_CLIENT"
    using init(3-5)
    by (cases "flags_arg AND JackPortIsInput = 0"; cases "flags_arg AND JackPortIsOutput = 0";
        auto split: if_splits)+
  have same: "warned \<longrightarrow> client' = client"
    using init(3-5) by (auto split: if_splits)
  have unmanaged: "case Client_process reserve port_buffer malloc_ok port_events start_frame
                    nframes client' of
               (result, client'', written) \<Rightarrow>
                 filter (\<lambda>x. port x = registered) (midi_send_queue client'') =
                   filter (\<lambda>x. port x = registered) (midi_send_queue client') \<and>
                 filter (\<lambda>x. port x = registered) (midi_receive_queue client'') =
                   filter (\<lambda>x. port x = registered) (midi_receive_queue client') \<and>
                 registered \<notin> fst ` set written"
    if "warned" and "registered \<notin> set (send_ports client) \<union> set (receive_ports client)"
  proof -
    have "registered \<notin> set (send_ports client')" "registered \<notin> set (receive_ports client')"
      using that same by auto
    then show ?thesis
      using Client_process_unmanaged [of registered client' reserve port_buffer malloc_ok
          port_events start_frame nframes]
      by (cases "Client_process reserve port_buffer malloc_ok port_events start_frame
                    nframes client'") auto
  qed
  have unmanaged':
    "warned \<and> registered \<notin> set (send_ports client) \<union> set (receive_ports client) \<longrightarrow>
       (case Client_process reserve port_buffer malloc_ok port_events start_frame nframes
               client' of
          (result, client'', written) \<Rightarrow>
            filter (\<lambda>x. port x = registered) (midi_send_queue client'') =
              filter (\<lambda>x. port x = registered) (midi_send_queue client') \<and>
            filter (\<lambda>x. port x = registered) (midi_receive_queue client'') =
              filter (\<lambda>x. port x = registered) (midi_receive_queue client') \<and>
            registered \<notin> fst ` set written)"
    using unmanaged by (intro impI) (elim conjE)
  show ?thesis
    by (intro conjI; fact init(1-4) bound_r bound_s unmanaged')
qed

text \<open>The 257th input port of a client.\<close>

theorem Port_init_over_limit_witness:
  "Port_init True 0 300 1 \<lparr>port_ptr = 0, is_mine = False, flags = 0\<rparr>
     \<lparr>is_active = True, send_ports = [], midi_send_queue = [],
      receive_ports = [Suc 0..<257], midi_receive_queue = []\<rparr> 1 =
   (0, True, \<lparr>port_ptr = 300, is_mine = True, flags = 1\<rparr>,
    \<lparr>is_active = True, send_ports = [], midi_send_queue = [],
      receive_ports = [Suc 0..<257], midi_receive_queue = []\<rparr>) \<and>
   (case Client_process (\<lambda>b t s. True) (\<lambda>p. True) (\<lambda>p i. True)
           (\<lambda>p. if p = 300 then Some [Some (0, [248])] else Some []) 0 512
           \<lparr>is_active = True, send_ports = [], midi_send_queue = [],
            receive_ports = [Suc 0..<257], midi_receive_queue = []\<rparr> of
      (result, client'', written) \<Rightarrow>
         filter (\<lambda>x. port x = 300) (midi_receive_queue client'') = [])"
  using Port_init_over_limit [of True 0 300 1 "\<lparr>port_ptr = 0, is_mine = False, flags = 0\<rparr>"
        "\<lparr>is_active = True, send_ports = [], midi_send_queue = [],
          receive_ports = [Suc 0..<257], midi_receive_queue = []\<rparr>" 1
        0 True "\<lparr>port_ptr = 300, is_mine = True, flags = 1\<rparr>"
        "\<lparr>is_active = True, send_ports = [], midi_send_queue = [],
          receive_ports = [Suc 0..<257], midi_receive_queue = []\<rparr>"
        "\<lambda>b t s. True" "\<lambda>p. True" "\<lambda>p i. True"
        "\<lambda>p. if p = 300 then Some [Some (0, [248])] else Some []" 0 512]
  by (simp add: Port_init_def NULL_def JackPortIsInput_def MAX_PORTS_PER_CLIENT_def
        split: prod.splits)

text \<open>With 256 input ports managed, registering one more returns 0, not an error.\<close>

theorem Port_init_at_limit_succeeds_counterexample:
  "length [Suc 0..<257] = MAX_PORTS_PER_CLIENT \<and>
   Port_init True 0 300 1 \<lparr>port_ptr = 0, is_mine = False, flags = 0\<rparr>
     \<lparr>is_active = True, send_ports = [], midi_send_queue = [],
      receive_ports = [Suc 0..<257], midi_receive_queue = []\<rparr> 1 =
   (0, True, \<lparr>port_ptr = 300, is_mine = True, flags = 1\<rparr>,
    \<lparr>is_active = True, send_ports = [], midi_send_queue = [],
      receive_ports = [Suc 0..<257], midi_receive_queue = []\<rparr>)"
  by (simp add: Port_init_def NULL_def JackPortIsInput_def MAX_PORTS_PER_CLIENT_def)

section \<open>Two runs\<close>

text \<open>
  At 48000 frames per second a note-on is sent for time 0 on output port 7 and the port
  is drained with a block of 512 frames: the three bytes are written at offset 0 and the
  queue is empty afterwards.
\<close>

lemma send_at_zero_then_drain:
  "Port_send None 0 True 48000 \<lparr>port_ptr = 7, is_mine = True, flags = 2\<rparr>
     (PyList [PyLong 144, PyLong 64, PyLong 127]) 0
     \<lparr>is_active = True, send_ports = [7], midi_send_queue = [],
      receive_ports = [], midi_receive_queue = []\<rparr> =
   (Returned PyNone,
    \<lparr>is_active = True, send_ports = [7],
      midi_send_queue = [\<lparr>port = 7, time = 0, data = [144, 64, 127]\<rparr>],
      receive_ports = [], midi_receive_queue = []\<rparr>) \<and>
   Client_send_messages_for_port (\<lambda>b t s. True) True
     \<lparr>is_active = True, send_ports = [7],
      midi_send_queue = [\<lparr>port = 7, time = 0, data = [144, 64, 127]\<rparr>],
      receive_ports = [], midi_receive_queue = []\<rparr> 7 512 =
   (\<lparr>is_active = True, send_ports = [7], midi_send_queue = [],
      receive_ports = [], midi_receive_queue = []\<rparr>, Some [(0, [144, 64, 127])])"
  by (simp add: Port_send_def JackPortIsOutput_def Port_send_time_def double_to_nframes_def
        c_trunc_def to_double_def Client_activate_def return_value_def
        Client_send_messages_for_port_def)

text \<open>
  An event at offset 100 of the block that starts at transport frame 48000 arrives on
  input port 3; \<^verbatim>\<open>Port_receive\<close> returns it with the double next to \<open>48100 / 48000\<close>
  seconds.
\<close>

lemma receive_at_offset_100:
  "Port_receive None 0 48000 \<lparr>port_ptr = 3, is_mine = True, flags = 1\<rparr>
     (Client_receive_messages_for_port (\<lambda>i. True) (Some [Some (100, [144, 64, 127])]) 48000
        \<lparr>is_active = True, send_ports = [], midi_send_queue = [], receive_ports = [3],
         midi_receive_queue = []\<rparr> 3) =
   (Returned (PyTuple [PyList [PyLong 144, PyLong 64, PyLong 127],
                       PyFloat (4512982126594185 / 4503599627370496)]),
    \<lparr>is_active = True, send_ports = [], midi_send_queue = [], receive_ports = [3],
      midi_receive_queue = []\<rparr>)"
  by (simp add: Port_receive_def Client_receive_messages_for_port_def JackPortIsInput_def
        Client_activate_def return_value_def Port_receive_time_def
        to_double_def binade_def compute_bitlen round_even_def Let_def)

section \<open>The list functions describe the linked lists\<close>

lemma chain_update_other:
  "a \<notin> fst ` set xs \<Longrightarrow> chain (h(a := v)) x xs y = chain h x xs y"
  by (induction xs arbitrary: x) auto

lemma chain_update_otherI:
  "a \<notin> fst ` set xs \<Longrightarrow> chain h x xs y \<Longrightarrow> chain (h(a := v)) x xs y"
  by (simp add: chain_update_other)

lemma chain_append:
  "chain h x (xs @ ys) z \<longleftrightarrow> (\<exists>y. chain h x xs y \<and> chain h y ys z)"
  by (induction xs arbitrary: x) fastforce+

lemma chain_relink:
  assumes "chain h x (xs @ [(l, m)]) y" and "distinct (map fst (xs @ [(l, m)]))"
  shows "chain (h(l \<mapsto> \<lparr>next_ptr = z, content = m\<rparr>)) x (xs @ [(l, m)]) z"
  using assms
  by (induction xs arbitrary: x) (auto simp: chain_update_other)

lemma chain_last_cell:
  "chain h x (xs @ [(l, m)]) y \<Longrightarrow> l \<noteq> 0 \<and> h l = Some \<lparr>next_ptr = y, content = m\<rparr>"
  by (induction xs arbitrary: x) auto

lemma chain_head:
  "chain h x (k # ks) y \<Longrightarrow> x = fst k"
  by (cases k) simp

text \<open>Relinking the last cell of a chain.\<close>

lemma set_next_last:
  assumes "chain h x (xs @ [(l, m)]) y" and "distinct (map fst (xs @ [(l, m)]))"
  shows "set_next h l z = Some (h(l \<mapsto> \<lparr>next_ptr = z, content = m\<rparr>))"
    and "chain (h(l \<mapsto> \<lparr>next_ptr = z, content = m\<rparr>)) x (xs @ [(l, m)]) z"
  using chain_last_cell [OF assms(1)] chain_relink [OF assms]
  by (simp_all add: set_next_def)

lemma unlink_cell:
  assumes "chain h head kept a" and "a \<noteq> 0"
    and "h a = Some \<lparr>next_ptr = nx, content = m\<rparr>" and "chain h nx rest 0"
    and "distinct (map fst (kept @ (a, m) # rest))"
    and "lastp = (if kept = [] then 0 else fst (last kept))"
  shows "\<exists>h1. (if lastp \<noteq> 0 then set_next h lastp nx else Some h) = Some h1 \<and>
           chain (h1(a := None)) (if a = head then nx else head) kept nx \<and>
           chain (h1(a := None)) nx rest 0"
proof (cases "kept = []")
  case True
  then have "lastp = 0" "head = a" using assms(1,6) by auto
  moreover have "a \<notin> fst ` set rest" using assms(5) by auto
  then have "chain (h(a := None)) nx rest 0" using assms(4) by (rule chain_update_otherI)
  ultimately show ?thesis using True by simp
next
  case False
  then obtain ks l ml where kept: "kept = ks @ [(l, ml)]"
    by (metis rev_exhaust surj_pair)
  have fresh_k: "a \<notin> fst ` set kept" and fresh_r: "a \<notin> fst ` set rest"
    and dk: "distinct (map fst (ks @ [(l, ml)]))" and lr: "l \<notin> fst ` set rest"
    using assms(5) unfolding kept by auto
  have c: "chain h head (ks @ [(l, ml)]) a" using assms(1) by (simp only: kept)
  note sn = set_next_last [OF c dk, of nx]
  have l0: "l \<noteq> 0" using chain_last_cell [OF c] by simp
  have "head \<in> fst ` set kept"
    using assms(1) False chain_head [of h head _ _ a] by (cases kept) auto
  then have ha: "a \<noteq> head" using fresh_k by auto
  let ?h1 = "h(l \<mapsto> \<lparr>next_ptr = nx, content = ml\<rparr>)"
  have "chain ?h1 head kept nx" using sn(2) by (simp only: kept)
  then have k: "chain (?h1(a := None)) head kept nx" by (rule chain_update_otherI [OF fresh_k])
  have "chain ?h1 nx rest 0" using assms(4) by (rule chain_update_otherI [OF lr])
  then have r: "chain (?h1(a := None)) nx rest 0" by (rule chain_update_otherI [OF fresh_r])
  have "lastp = l" using assms(6) kept by simp
  then show ?thesis using sn(1) l0 ha k r by simp
qed

text \<open>
  Each loop, started anywhere in a queue, returns a result, and the result is the one of
  the list function on the messages that were still to be visited.
\<close>

lemma send_loop_ptr_step:
  assumes "a \<noteq> 0" and "h a = Some \<lparr>next_ptr = nx, content = m\<rparr>"
    and "port m = p"
    and "t' = (if 0 < cnt \<and> time m \<le> lt then lt + 1 else time m)"
  shows "send_loop_ptr reserve p n h head lastp a cnt lt buf =
     (if t' < n then
        (case (if lastp \<noteq> 0
               then set_next (h(a \<mapsto> \<lparr>next_ptr = nx, content = m\<lparr>time := t'\<rparr>\<rparr>)) lastp nx
               else Some (h(a \<mapsto> \<lparr>next_ptr = nx, content = m\<lparr>time := t'\<rparr>\<rparr>))) of
           None \<Rightarrow> None
         | Some h2 \<Rightarrow>
             send_loop_ptr reserve p n (h2(a := None))
               (if a = head then nx else head) lastp nx (cnt + 1) t'
               (if reserve buf t' (length (data m)) then buf @ [(t', data m)] else buf))
      else
        send_loop_ptr reserve p n
          (h(a \<mapsto> \<lparr>next_ptr = nx, content = m\<lparr>time := t' - n\<rparr>\<rparr>))
          head a nx cnt lt buf)"
proof (cases "0 < cnt \<and> time m \<le> lt")
  case True
  then have "t' = lt + 1" using assms(4) by simp
  then show ?thesis using True assms(1-3)
    by (subst send_loop_ptr.simps) (simp add: Let_def cong: option.case_cong)
next
  case False
  then have "t' = time m" using assms(4) by auto
  then show ?thesis using False assms(1-3)
    by (subst send_loop_ptr.simps) (auto simp: Let_def cong: option.case_cong)
qed

lemma send_loop_ptr_refines:
  assumes "chain h head kept message" and "chain h message rest 0"
    and "distinct (map fst (kept @ rest))"
    and "lastp = (if kept = [] then 0 else fst (last kept))"
  shows "\<exists>h' head' rest'.
           send_loop_ptr reserve p n h head lastp message cnt lt buf =
             Some (h', head', snd (send_loop reserve p n (map snd rest) cnt lt buf)) \<and>
           chain h' head' (kept @ rest') 0 \<and> distinct (map fst (kept @ rest')) \<and>
           map snd rest' = fst (send_loop reserve p n (map snd rest) cnt lt buf)"
  using assms
proof (induction rest arbitrary: h head lastp message kept cnt lt buf)
  case Nil
  then have "message = 0" by simp
  then have "send_loop_ptr reserve p n h head lastp message cnt lt buf = Some (h, head, buf)"
    by (subst send_loop_ptr.simps) simp
  then have "send_loop_ptr reserve p n h head lastp message cnt lt buf =
             Some (h, head, snd (send_loop reserve p n (map snd []) cnt lt buf)) \<and>
           chain h head (kept @ []) 0 \<and> distinct (map fst (kept @ [])) \<and>
           map snd [] = fst (send_loop reserve p n (map snd []) cnt lt buf)"
    using Nil by simp
  then show ?case by blast
next
  case (Cons am rest)
  obtain a m where am: "am = (a, m)" by (cases am)
  from Cons.prems(2) obtain nx where msg: "message = a" and a0: "a \<noteq> 0"
    and cell: "h a = Some \<lparr>next_ptr = nx, content = m\<rparr>" and tl: "chain h nx rest 0"
    unfolding am by auto
  have fresh_k: "a \<notin> fst ` set kept" and fresh_r: "a \<notin> fst ` set rest"
    using Cons.prems(3) unfolding am by auto
  have k: "chain h head kept a" using Cons.prems(1) by (simp add: msg)
  show ?case
  proof (cases "port m = p")
    case False
    have "send_loop_ptr reserve p n h head lastp a cnt lt buf =
        send_loop_ptr reserve p n h head a nx cnt lt buf"
      using False a0 by (subst send_loop_ptr.simps) (simp add: cell)
    then have step: "send_loop_ptr reserve p n h head lastp message cnt lt buf =
        send_loop_ptr reserve p n h head a nx cnt lt buf"
      by (simp only: msg)
    have "\<exists>h' head' rest'.
           send_loop_ptr reserve p n h head a nx cnt lt buf =
             Some (h', head', snd (send_loop reserve p n (map snd rest) cnt lt buf)) \<and>
           chain h' head' ((kept @ [(a, m)]) @ rest') 0 \<and>
           distinct (map fst ((kept @ [(a, m)]) @ rest')) \<and>
           map snd rest' = fst (send_loop reserve p n (map snd rest) cnt lt buf)"
    proof (rule Cons.IH)
      show "chain h head (kept @ [(a, m)]) nx"
        using k a0 cell by (auto simp: chain_append)
      show "chain h nx rest 0" by (rule tl)
      show "distinct (map fst ((kept @ [(a, m)]) @ rest))"
        using Cons.prems(3) unfolding am by auto
      show "a = (if kept @ [(a, m)] = [] then 0 else fst (last (kept @ [(a, m)])))" by simp
    qed
    then obtain h' head' rest' where r:
      "send_loop_ptr reserve p n h head a nx cnt lt buf =
             Some (h', head', snd (send_loop reserve p n (map snd rest) cnt lt buf))"
      "chain h' head' ((kept @ [(a, m)]) @ rest') 0"
      "distinct (map fst ((kept @ [(a, m)]) @ rest'))"
      "map snd rest' = fst (send_loop reserve p n (map snd rest) cnt lt buf)"
      by blast
    have "send_loop_ptr reserve p n h head lastp message cnt lt buf =
             Some (h', head', snd (send_loop reserve p n (map snd (am # rest)) cnt lt buf)) \<and>
           chain h' head' (kept @ (a, m) # rest') 0 \<and>
           distinct (map fst (kept @ (a, m) # rest')) \<and>
           map snd ((a, m) # rest') = fst (send_loop reserve p n (map snd (am # rest)) cnt lt buf)"
      unfolding step am using r False
      by (cases "send_loop reserve p n (map snd rest) cnt lt buf") simp
    then show ?thesis by blast
  next
    case True
    define t' where "t' = (if 0 < cnt \<and> time m \<le> lt then lt + 1 else time m)"
    note ptr = send_loop_ptr_step [where h = h and a = a, OF a0 cell True t'_def,
        of reserve n head lastp buf]
    have abs: "send_loop reserve p n (map snd (am # rest)) cnt lt buf =
       (if t' < n then
           send_loop reserve p n (map snd rest) (cnt + 1) t'
             (if reserve buf t' (length (data m)) then buf @ [(t', data m)] else buf)
         else (case send_loop reserve p n (map snd rest) cnt lt buf of
                 (q, b) \<Rightarrow> (m\<lparr>time := t' - n\<rparr> # q, b)))"
      unfolding am using send_loop_mine [OF True, of reserve n "map snd rest" cnt lt buf]
      by (simp add: t'_def Let_def)
    show ?thesis
    proof (cases "t' < n")
      case False
      let ?m' = "m\<lparr>time := t' - n\<rparr>"
      let ?h' = "h(a \<mapsto> \<lparr>next_ptr = nx, content = ?m'\<rparr>)"
      have step: "send_loop_ptr reserve p n h head lastp message cnt lt buf =
          send_loop_ptr reserve p n ?h' head a nx cnt lt buf"
        unfolding msg using False by (simp add: ptr)
      have "\<exists>h' head' rest'.
           send_loop_ptr reserve p n ?h' head a nx cnt lt buf =
             Some (h', head', snd (send_loop reserve p n (map snd rest) cnt lt buf)) \<and>
           chain h' head' ((kept @ [(a, ?m')]) @ rest') 0 \<and>
           distinct (map fst ((kept @ [(a, ?m')]) @ rest')) \<and>
           map snd rest' = fst (send_loop reserve p n (map snd rest) cnt lt buf)"
      proof (rule Cons.IH)
        have "chain ?h' head kept a" using k by (rule chain_update_otherI [OF fresh_k])
        then show "chain ?h' head (kept @ [(a, ?m')]) nx"
          using a0 by (auto simp: chain_append)
        show "chain ?h' nx rest 0" by (rule chain_update_otherI [OF fresh_r tl])
        show "distinct (map fst ((kept @ [(a, ?m')]) @ rest))"
          using Cons.prems(3) unfolding am by auto
        show "a = (if kept @ [(a, ?m')] = [] then 0 else fst (last (kept @ [(a, ?m')])))"
          by simp
      qed
      then obtain h' head' rest' where r:
        "send_loop_ptr reserve p n ?h' head a nx cnt lt buf =
             Some (h', head', snd (send_loop reserve p n (map snd rest) cnt lt buf))"
        "chain h' head' ((kept @ [(a, ?m')]) @ rest') 0"
        "distinct (map fst ((kept @ [(a, ?m')]) @ rest'))"
        "map snd rest' = fst (send_loop reserve p n (map snd rest) cnt lt buf)"
        by blast
      have "send_loop_ptr reserve p n h head lastp message cnt lt buf =
             Some (h', head', snd (send_loop reserve p n (map snd (am # rest)) cnt lt buf)) \<and>
           chain h' head' (kept @ (a, ?m') # rest') 0 \<and>
           distinct (map fst (kept @ (a, ?m') # rest')) \<and>
           map snd ((a, ?m') # rest') =
             fst (send_loop reserve p n (map snd (am # rest)) cnt lt buf)"
        unfolding step abs using r False
        by (cases "send_loop reserve p n (map snd rest) cnt lt buf") simp
      then show ?thesis by blast
    next
      case inblock: True
      let ?buf = "if reserve buf t' (length (data m)) then buf @ [(t', data m)] else buf"
      let ?mt = "m\<lparr>time := t'\<rparr>"
      let ?h1 = "h(a \<mapsto> \<lparr>next_ptr = nx, content = ?mt\<rparr>)"
      have "\<exists>h2. (if lastp \<noteq> 0 then set_next ?h1 lastp nx else Some ?h1) = Some h2 \<and>
           chain (h2(a := None)) (if a = head then nx else head) kept nx \<and>
           chain (h2(a := None)) nx rest 0"
      proof (rule unlink_cell)
        show "chain ?h1 head kept a" using k by (rule chain_update_otherI [OF fresh_k])
        show "a \<noteq> 0" by (rule a0)
        show "?h1 a = Some \<lparr>next_ptr = nx, content = ?mt\<rparr>" by simp
        show "chain ?h1 nx rest 0" by (rule chain_update_otherI [OF fresh_r tl])
        show "distinct (map fst (kept @ (a, ?mt) # rest))"
          using Cons.prems(3) unfolding am by auto
        show "lastp = (if kept = [] then 0 else fst (last kept))" by (rule Cons.prems(4))
      qed
      then obtain h2 where h2: "(if lastp \<noteq> 0 then set_next ?h1 lastp nx else Some ?h1) = Some h2"
        and c2: "chain (h2(a := None)) (if a = head then nx else head) kept nx"
          "chain (h2(a := None)) nx rest 0"
        by blast
      have step: "send_loop_ptr reserve p n h head lastp message cnt lt buf =
          send_loop_ptr reserve p n (h2(a := None)) (if a = head then nx else head) lastp nx
            (cnt + 1) t' ?buf"
        unfolding msg ptr h2 using inblock by simp
      have "\<exists>h' head' rest'.
           send_loop_ptr reserve p n (h2(a := None)) (if a = head then nx else head) lastp nx
               (cnt + 1) t' ?buf =
             Some (h', head', snd (send_loop reserve p n (map snd rest) (cnt + 1) t' ?buf)) \<and>
           chain h' head' (kept @ rest') 0 \<and> distinct (map fst (kept @ rest')) \<and>
           map snd rest' = fst (send_loop reserve p n (map snd rest) (cnt + 1) t' ?buf)"
      proof (rule Cons.IH)
        show "chain (h2(a := None)) (if a = head then nx else head) kept nx"
          "chain (h2(a := None)) nx rest 0" by (rule c2)+
        show "distinct (map fst (kept @ rest))"
          using Cons.prems(3) unfolding am by auto
        show "lastp = (if kept = [] then 0 else fst (last kept))" by (rule Cons.prems(4))
      qed
      then show ?thesis unfolding step abs using inblock by simp
    qed
  qed
qed

lemma insert_loop_ptr_refines:
  assumes "chain h head kept current" and "chain h current rest 0"
    and "distinct (map fst (kept @ rest))"
    and "lastp = (if kept = [] then 0 else fst (last kept))"
    and "a \<noteq> 0" and "a \<notin> fst ` set (kept @ rest)"
    and "h a = Some \<lparr>next_ptr = 0, content = m\<rparr>"
  shows "if \<exists>x\<in>set rest. time m < time (snd x)
         then \<exists>h' head' lastp' ys.
                insert_loop_ptr h head a (time m) lastp current = Some (h', head', 0, lastp') \<and>
                chain h' head' (kept @ ys) 0 \<and> distinct (map fst (kept @ ys)) \<and>
                map snd ys = send_queue_insert m (map snd rest)
         else insert_loop_ptr h head a (time m) lastp current =
                Some (h, head, a,
                      if kept @ rest = [] then 0 else fst (last (kept @ rest))) \<and>
              map snd rest @ [m] = send_queue_insert m (map snd rest)"
  using assms
proof (induction rest arbitrary: kept lastp current)
  case Nil
  then have "current = 0" by simp
  then show ?case using Nil
    by (subst insert_loop_ptr.simps) simp
next
  case (Cons cm rest)
  obtain c mc where cm: "cm = (c, mc)" by (cases cm)
  from Cons.prems(2) obtain nx where cur: "current = c" and c0: "c \<noteq> 0"
    and cell: "h c = Some \<lparr>next_ptr = nx, content = mc\<rparr>" and tl: "chain h nx rest 0"
    unfolding cm by auto
  have k: "chain h head kept c" using Cons.prems(1) by (simp add: cur)
  have fresh: "a \<notin> fst ` set kept" "a \<noteq> c" "a \<notin> fst ` set rest"
    using Cons.prems(6) unfolding cm by auto
  show ?case
  proof (cases "time m < time mc")
    case False
    have step: "insert_loop_ptr h head a (time m) lastp current =
        insert_loop_ptr h head a (time m) c nx"
      unfolding cur using False c0 by (subst insert_loop_ptr.simps) (simp add: cell)
    have ih: "if \<exists>x\<in>set rest. time m < time (snd x)
         then \<exists>h' head' lastp' ys.
                insert_loop_ptr h head a (time m) c nx = Some (h', head', 0, lastp') \<and>
                chain h' head' ((kept @ [(c, mc)]) @ ys) 0 \<and>
                distinct (map fst ((kept @ [(c, mc)]) @ ys)) \<and>
                map snd ys = send_queue_insert m (map snd rest)
         else insert_loop_ptr h head a (time m) c nx =
                Some (h, head, a,
                      if (kept @ [(c, mc)]) @ rest = [] then 0
                      else fst (last ((kept @ [(c, mc)]) @ rest))) \<and>
              map snd rest @ [m] = send_queue_insert m (map snd rest)"
    proof (rule Cons.IH)
      show "chain h head (kept @ [(c, mc)]) nx"
        using k c0 cell by (auto simp: chain_append)
      show "chain h nx rest 0" by (rule tl)
      show "distinct (map fst ((kept @ [(c, mc)]) @ rest))"
        using Cons.prems(3) unfolding cm by auto
      show "c = (if kept @ [(c, mc)] = [] then 0 else fst (last (kept @ [(c, mc)])))" by simp
      show "a \<noteq> 0" by (rule Cons.prems(5))
      show "a \<notin> fst ` set ((kept @ [(c, mc)]) @ rest)"
        using Cons.prems(6) unfolding cm by auto
      show "h a = Some \<lparr>next_ptr = 0, content = m\<rparr>" by (rule Cons.prems(7))
    qed
    show ?thesis
    proof (cases "\<exists>x\<in>set rest. time m < time (snd x)")
      case True
      then obtain h' head' lastp' ys where r:
        "insert_loop_ptr h head a (time m) c nx = Some (h', head', 0, lastp')"
        "chain h' head' ((kept @ [(c, mc)]) @ ys) 0"
        "distinct (map fst ((kept @ [(c, mc)]) @ ys))"
        "map snd ys = send_queue_insert m (map snd rest)"
        using ih by auto
      have "insert_loop_ptr h head a (time m) lastp current = Some (h', head', 0, lastp') \<and>
          chain h' head' (kept @ (c, mc) # ys) 0 \<and>
          distinct (map fst (kept @ (c, mc) # ys)) \<and>
          map snd ((c, mc) # ys) = send_queue_insert m (map snd (cm # rest))"
        unfolding step cm using r False by simp
      moreover have "\<exists>x\<in>set (cm # rest). time m < time (snd x)" using True by auto
      ultimately show ?thesis by (simp only: if_True) blast
    next
      case none: False
      then have "\<not> (\<exists>x\<in>set (cm # rest). time m < time (snd x))"
        using False by (auto simp: cm)
      moreover have "insert_loop_ptr h head a (time m) lastp current =
                Some (h, head, a,
                      if kept @ cm # rest = [] then 0 else fst (last (kept @ cm # rest))) \<and>
              map snd (cm # rest) @ [m] = send_queue_insert m (map snd (cm # rest))"
        unfolding step cm using ih none False by simp
      ultimately show ?thesis by (simp only: if_False)
    qed
  next
    case True
    have found: "\<exists>x\<in>set (cm # rest). time m < time (snd x)" using True by (auto simp: cm)
    let ?ys = "(a, m) # (c, mc) # rest"
    let ?cell = "\<lparr>next_ptr = c, content = m\<rparr>"
    have "\<exists>h1 head1.
        (if lastp = 0 then Some (h, a)
         else map_option (\<lambda>h1. (h1, head)) (set_next h lastp a)) = Some (h1, head1) \<and>
        h1 a = Some \<lparr>next_ptr = 0, content = m\<rparr> \<and>
        chain (h1(a \<mapsto> ?cell)) head1 kept a \<and> chain (h1(a \<mapsto> ?cell)) c ((c, mc) # rest) 0"
    proof (cases "kept = []")
      case True
      then have "lastp = 0" "head = c" using Cons.prems(4) k by auto
      moreover have "chain h c ((c, mc) # rest) 0" using Cons.prems(2) by (simp add: cur cm)
      then have "chain (h(a \<mapsto> ?cell)) c ((c, mc) # rest) 0"
        by (rule chain_update_otherI [rotated]) (use fresh in auto)
      ultimately show ?thesis using True Cons.prems(7) by simp
    next
      case False
      then obtain ks l ml where kept: "kept = ks @ [(l, ml)]"
        by (metis rev_exhaust surj_pair)
      have kc: "chain h head (ks @ [(l, ml)]) c" using k by (simp only: kept)
      have dk: "distinct (map fst (ks @ [(l, ml)]))" and lr: "l \<notin> fst ` set ((c, mc) # rest)"
        and la: "l \<noteq> a"
        using Cons.prems(3) fresh(1) unfolding kept cm by auto
      note sn = set_next_last [OF kc dk, of a]
      have l0: "l \<noteq> 0" using chain_last_cell [OF kc] by simp
      let ?h1 = "h(l \<mapsto> \<lparr>next_ptr = a, content = ml\<rparr>)"
      have "chain ?h1 head kept a" using sn(2) by (simp only: kept)
      then have 1: "chain (?h1(a \<mapsto> ?cell)) head kept a"
        by (rule chain_update_otherI [OF fresh(1)])
      have "chain h c ((c, mc) # rest) 0" using Cons.prems(2) by (simp add: cur cm)
      then have "chain ?h1 c ((c, mc) # rest) 0" by (rule chain_update_otherI [OF lr])
      then have 2: "chain (?h1(a \<mapsto> ?cell)) c ((c, mc) # rest) 0"
        by (rule chain_update_otherI [rotated]) (use fresh in auto)
      have "lastp = l" using Cons.prems(4) kept by simp
      then show ?thesis using sn(1) l0 la 1 2 Cons.prems(7) by simp
    qed
    then obtain h1 head1 where h1:
      "(if lastp = 0 then Some (h, a)
         else map_option (\<lambda>h1. (h1, head)) (set_next h lastp a)) = Some (h1, head1)"
      "h1 a = Some \<lparr>next_ptr = 0, content = m\<rparr>"
      and c1: "chain (h1(a \<mapsto> ?cell)) head1 kept a"
        "chain (h1(a \<mapsto> ?cell)) c ((c, mc) # rest) 0"
      by blast
    have sn2: "set_next h1 a c = Some (h1(a \<mapsto> ?cell))"
      using h1(2) by (simp add: set_next_def)
    have "insert_loop_ptr h head a (time m) lastp c = Some (h1(a \<mapsto> ?cell), head1, 0, lastp)"
      using True c0 by (subst insert_loop_ptr.simps) (simp add: cell h1(1) sn2)
    then have step: "insert_loop_ptr h head a (time m) lastp current =
        Some (h1(a \<mapsto> ?cell), head1, 0, lastp)"
      by (simp only: cur)
    have "chain (h1(a \<mapsto> ?cell)) a ?ys 0"
      using c1(2) Cons.prems(5) by simp
    with c1(1) have "chain (h1(a \<mapsto> ?cell)) head1 (kept @ ?ys) 0"
      by (subst chain_append) blast
    moreover have "distinct (map fst (kept @ ?ys))"
      using Cons.prems(3,6) unfolding cm by auto
    moreover have "map snd ?ys = send_queue_insert m (map snd (cm # rest))"
      using True by (simp add: cm)
    ultimately have "insert_loop_ptr h head a (time m) lastp current =
          Some (h1(a \<mapsto> ?cell), head1, 0, lastp) \<and>
        chain (h1(a \<mapsto> ?cell)) head1 (kept @ ?ys) 0 \<and>
        distinct (map fst (kept @ ?ys)) \<and>
        map snd ?ys = send_queue_insert m (map snd (cm # rest))"
      using step by blast
    then show ?thesis using found by (simp only: if_True) blast
  qed
qed

lemma receive_scan_ptr_refines:
  assumes "chain h head kept message" and "chain h message rest 0"
    and "distinct (map fst (kept @ rest))"
    and "lastp = (if kept = [] then 0 else fst (last kept))"
    and "tail = (if kept @ rest = [] then 0 else fst (last (kept @ rest)))"
  shows "\<exists>h' head' tail' rest'.
           receive_scan_ptr p h head tail lastp message =
             Some (map_option fst (receive_scan p (map snd rest)), h', head', tail') \<and>
           linked_to h' head' tail' (kept @ rest') \<and>
           map snd rest' =
             (case receive_scan p (map snd rest) of
                None \<Rightarrow> map snd rest
              | Some (found, others) \<Rightarrow> others)"
  using assms
proof (induction rest arbitrary: kept lastp message)
  case Nil
  then have "message = 0" by simp
  then have "receive_scan_ptr p h head tail lastp message = Some (None, h, head, tail)"
    by (subst receive_scan_ptr.simps) simp
  then show ?case using Nil
    by (intro exI [of _ h] exI [of _ head] exI [of _ tail] exI [of _ "[]"])
       (simp add: linked_to_def linked_def)
next
  case (Cons am rest)
  obtain a m where am: "am = (a, m)" by (cases am)
  from Cons.prems(2) obtain nx where msg: "message = a" and a0: "a \<noteq> 0"
    and cell: "h a = Some \<lparr>next_ptr = nx, content = m\<rparr>" and tl: "chain h nx rest 0"
    unfolding am by auto
  show ?case
  proof (cases "port m = p")
    case True
    have k: "chain h head kept a" using Cons.prems(1) by (simp add: msg)
    have d: "distinct (map fst (kept @ (a, m) # rest))" using Cons.prems(3) by (simp add: am)
    from unlink_cell [OF k a0 cell tl d Cons.prems(4)]
    obtain h1 where h1: "(if lastp \<noteq> 0 then set_next h lastp nx else Some h) = Some h1"
      and c1: "chain (h1(a := None)) (if a = head then nx else head) kept nx"
        "chain (h1(a := None)) nx rest 0"
      by blast
    let ?tail = "if a = tail then lastp else tail"
    have h1': "lastp \<noteq> 0 \<Longrightarrow> set_next h lastp nx = Some h1" "lastp = 0 \<Longrightarrow> h1 = h"
      using h1 by (auto split: if_splits)
    have "receive_scan_ptr p h head tail lastp a =
        Some (Some m, h1(a := None), if a = head then nx else head, ?tail)"
      using True a0 h1' by (subst receive_scan_ptr.simps) (cases "lastp = 0"; simp add: cell)
    then have step: "receive_scan_ptr p h head tail lastp message =
        Some (Some m, h1(a := None), if a = head then nx else head, ?tail)"
      by (simp only: msg)
    have tail': "?tail = (if kept @ rest = [] then 0 else fst (last (kept @ rest)))"
    proof (cases "rest = []")
      case True
      then show ?thesis using Cons.prems(4,5) by (simp add: am)
    next
      case False
      then have "fst (last rest) \<in> fst ` set rest" by simp
      then have "fst (last rest) \<noteq> a" using d by auto
      then show ?thesis using False Cons.prems(5) by (simp add: am)
    qed
    have "chain (h1(a := None)) (if a = head then nx else head) (kept @ rest) 0"
      using c1 by (subst chain_append) blast
    then have "linked_to (h1(a := None)) (if a = head then nx else head) ?tail (kept @ rest)"
      using d tail' by (simp add: linked_to_def linked_def)
    moreover have "receive_scan p (map snd (am # rest)) = Some (m, map snd rest)"
      using True by (simp add: am)
    ultimately have "receive_scan_ptr p h head tail lastp message =
             Some (map_option fst (receive_scan p (map snd (am # rest))),
                   h1(a := None), if a = head then nx else head, ?tail) \<and>
           linked_to (h1(a := None)) (if a = head then nx else head) ?tail (kept @ rest) \<and>
           map snd rest =
             (case receive_scan p (map snd (am # rest)) of
                None \<Rightarrow> map snd (am # rest)
              | Some (found, others) \<Rightarrow> others)"
      using step by simp
    then show ?thesis by blast
  next
    case False
    have "receive_scan_ptr p h head tail lastp a = receive_scan_ptr p h head tail a nx"
      using False a0 by (subst receive_scan_ptr.simps) (simp add: cell)
    then have step: "receive_scan_ptr p h head tail lastp message =
        receive_scan_ptr p h head tail a nx"
      by (simp only: msg)
    have "\<exists>h' head' tail' rest'.
           receive_scan_ptr p h head tail a nx =
             Some (map_option fst (receive_scan p (map snd rest)), h', head', tail') \<and>
           linked_to h' head' tail' ((kept @ [(a, m)]) @ rest') \<and>
           map snd rest' =
             (case receive_scan p (map snd rest) of
                None \<Rightarrow> map snd rest
              | Some (found, others) \<Rightarrow> others)"
    proof (rule Cons.IH)
      show "chain h head (kept @ [(a, m)]) nx"
        using Cons.prems(1) a0 cell by (auto simp: chain_append msg)
      show "chain h nx rest 0" by (rule tl)
      show "distinct (map fst ((kept @ [(a, m)]) @ rest))"
        using Cons.prems(3) unfolding am by auto
      show "a = (if kept @ [(a, m)] = [] then 0 else fst (last (kept @ [(a, m)])))" by simp
      show "tail = (if (kept @ [(a, m)]) @ rest = [] then 0
                    else fst (last ((kept @ [(a, m)]) @ rest)))"
        using Cons.prems(5) by (simp add: am)
    qed
    then obtain h' head' tail' rest' where r:
      "receive_scan_ptr p h head tail a nx =
             Some (map_option fst (receive_scan p (map snd rest)), h', head', tail')"
      "linked_to h' head' tail' ((kept @ [(a, m)]) @ rest')"
      "map snd rest' =
             (case receive_scan p (map snd rest) of
                None \<Rightarrow> map snd rest
              | Some (found, others) \<Rightarrow> others)"
      by blast
    have "receive_scan_ptr p h head tail lastp message =
             Some (map_option fst (receive_scan p (map snd (am # rest))), h', head', tail') \<and>
           linked_to h' head' tail' (kept @ (a, m) # rest') \<and>
           map snd ((a, m) # rest') =
             (case receive_scan p (map snd (am # rest)) of
                None \<Rightarrow> map snd (am # rest)
              | Some (found, others) \<Rightarrow> others)"
      unfolding step am using r False by (auto split: option.splits)
    then show ?thesis by blast
  qed
qed

text \<open>
  The four operations on a whole queue: insertion by \<^verbatim>\<open>Port_send\<close>, the drain, the
  append of a received message and the scan of \<^verbatim>\<open>Port_receive\<close>.
\<close>

lemma send_queue_insert_ptr_refines:
  assumes "linked h head xs" and "a \<noteq> 0" and "a \<notin> fst ` set xs"
    and "h a = Some \<lparr>next_ptr = 0, content = m\<rparr>"
  shows "\<exists>h' head' ys.
           send_queue_insert_ptr h head a = Some (h', head') \<and> linked h' head' ys \<and>
           map snd ys = send_queue_insert m (map snd xs)"
proof (cases "xs = []")
  case True
  then have "head = 0" using assms(1) by (simp add: linked_def)
  then have "send_queue_insert_ptr h head a = Some (h, a) \<and> linked h a [(a, m)] \<and>
      map snd [(a, m)] = send_queue_insert m (map snd xs)"
    using True assms by (simp add: send_queue_insert_ptr_def linked_def)
  then show ?thesis by blast
next
  case False
  have c: "chain h head xs 0" and d: "distinct (map fst xs)"
    using assms(1) by (simp_all add: linked_def)
  have head0: "head \<noteq> 0" using c False by (cases xs) auto
  have loop: "if \<exists>x\<in>set xs. time m < time (snd x)
         then \<exists>h' head' lastp' ys.
                insert_loop_ptr h head a (time m) 0 head = Some (h', head', 0, lastp') \<and>
                chain h' head' ys 0 \<and> distinct (map fst ys) \<and>
                map snd ys = send_queue_insert m (map snd xs)
         else insert_loop_ptr h head a (time m) 0 head = Some (h, head, a, fst (last xs)) \<and>
              map snd xs @ [m] = send_queue_insert m (map snd xs)"
    using insert_loop_ptr_refines [of h head "[]" head xs 0 a m] c d assms(2,3,4) False
    by (simp cong: if_cong)
  show ?thesis
  proof (cases "\<exists>x\<in>set xs. time m < time (snd x)")
    case True
    then obtain h' head' lastp' ys where r:
      "insert_loop_ptr h head a (time m) 0 head = Some (h', head', 0, lastp')"
      "chain h' head' ys 0" "distinct (map fst ys)"
      "map snd ys = send_queue_insert m (map snd xs)"
      using loop by auto
    have "send_queue_insert_ptr h head a = Some (h', head') \<and> linked h' head' ys \<and>
        map snd ys = send_queue_insert m (map snd xs)"
      using head0 r assms(4) by (simp add: send_queue_insert_ptr_def linked_def)
    then show ?thesis by blast
  next
    case none: False
    then have r: "insert_loop_ptr h head a (time m) 0 head = Some (h, head, a, fst (last xs))"
      "map snd xs @ [m] = send_queue_insert m (map snd xs)"
      using loop False by auto
    obtain ks l ml where xs: "xs = ks @ [(l, ml)]"
      using False by (metis rev_exhaust surj_pair)
    have kc: "chain h head (ks @ [(l, ml)]) 0" and dk: "distinct (map fst (ks @ [(l, ml)]))"
      using c d by (simp_all only: xs)
    note sn = set_next_last [OF kc dk, of a]
    have l0: "l \<noteq> 0" using chain_last_cell [OF kc] by simp
    have la: "l \<noteq> a" using assms(3) xs by auto
    let ?h' = "h(l \<mapsto> \<lparr>next_ptr = a, content = ml\<rparr>)"
    have "chain ?h' a [(a, m)] 0" using assms(2,4) la by simp
    with sn(2) have "chain ?h' head (xs @ [(a, m)]) 0"
      unfolding xs by (subst chain_append) blast
    then have "linked ?h' head (xs @ [(a, m)])"
      using d assms(3) by (simp add: linked_def)
    moreover have "send_queue_insert_ptr h head a = Some (?h', head)"
      using head0 r(1) assms(2,4) l0 sn(1)
      by (simp add: send_queue_insert_ptr_def xs)
    ultimately have "send_queue_insert_ptr h head a = Some (?h', head) \<and>
        linked ?h' head (xs @ [(a, m)]) \<and>
        map snd (xs @ [(a, m)]) = send_queue_insert m (map snd xs)"
      using r(2) by simp
    then show ?thesis by blast
  qed
qed

lemma send_loop_ptr_linked:
  assumes "linked h head xs"
  shows "\<exists>h' head' ys.
           send_loop_ptr reserve p n h head 0 head 0 0 [] =
             Some (h', head', snd (send_loop reserve p n (map snd xs) 0 0 [])) \<and>
           linked h' head' ys \<and>
           map snd ys = fst (send_loop reserve p n (map snd xs) 0 0 [])"
proof -
  have "\<exists>h' head' rest'.
           send_loop_ptr reserve p n h head 0 head 0 0 [] =
             Some (h', head', snd (send_loop reserve p n (map snd xs) 0 0 [])) \<and>
           chain h' head' ([] @ rest') 0 \<and> distinct (map fst ([] @ rest')) \<and>
           map snd rest' = fst (send_loop reserve p n (map snd xs) 0 0 [])"
  proof (rule send_loop_ptr_refines)
    show "chain h head [] head" by simp
    show "chain h head xs 0" using assms by (simp add: linked_def)
    show "distinct (map fst ([] @ xs))" using assms by (simp add: linked_def)
    show "0 = (if [] = [] then 0 else fst (last []))" by simp
  qed
  then show ?thesis by (simp add: linked_def)
qed

lemma receive_append_ptr_refines:
  assumes "linked_to h head tail xs" and "a \<noteq> 0" and "a \<notin> fst ` set xs"
    and "h a = Some \<lparr>next_ptr = 0, content = m\<rparr>"
  shows "\<exists>h'. receive_append_ptr h head tail a = Some (h', if head = 0 then a else head, a) \<and>
           linked_to h' (if head = 0 then a else head) a (xs @ [(a, m)])"
proof (cases "xs = []")
  case True
  then have "head = 0" "tail = 0" using assms(1) by (auto simp: linked_to_def linked_def)
  then show ?thesis using True assms
    by (simp add: receive_append_ptr_def linked_to_def linked_def)
next
  case False
  then obtain ks l ml where xs: "xs = ks @ [(l, ml)]"
    by (metis rev_exhaust surj_pair)
  have c: "chain h head (ks @ [(l, ml)]) 0" and d: "distinct (map fst (ks @ [(l, ml)]))"
    and t: "tail = l"
    using assms(1) by (auto simp: linked_to_def linked_def xs)
  note sn = set_next_last [OF c d, of a]
  have "l \<noteq> 0" using chain_last_cell [OF c] by simp
  have la: "l \<noteq> a" using assms(3) xs by auto
  have "head \<noteq> 0" using c by (cases ks) auto
  let ?h' = "h(l \<mapsto> \<lparr>next_ptr = a, content = ml\<rparr>)"
  have "chain ?h' a [(a, m)] 0" using assms(2,4) la by simp
  with sn(2) have "chain ?h' head (xs @ [(a, m)]) 0"
    unfolding xs by (subst chain_append) blast
  then have "linked_to ?h' head a (xs @ [(a, m)])"
    using d assms(3) by (simp add: linked_to_def linked_def xs)
  then show ?thesis
    using sn(1) \<open>l \<noteq> 0\<close> \<open>head \<noteq> 0\<close> by (auto simp: receive_append_ptr_def t)
qed

lemma receive_scan_ptr_linked:
  assumes "linked_to h head tail xs"
  shows "\<exists>h' head' tail' ys.
           receive_scan_ptr p h head tail 0 head =
             Some (map_option fst (receive_scan p (map snd xs)), h', head', tail') \<and>
           linked_to h' head' tail' ys \<and>
           map snd ys =
             (case receive_scan p (map snd xs) of
                None \<Rightarrow> map snd xs
              | Some (found, others) \<Rightarrow> others)"
proof -
  have "\<exists>h' head' tail' rest'.
           receive_scan_ptr p h head tail 0 head =
             Some (map_option fst (receive_scan p (map snd xs)), h', head', tail') \<and>
           linked_to h' head' tail' ([] @ rest') \<and>
           map snd rest' =
             (case receive_scan p (map snd xs) of
                None \<Rightarrow> map snd xs
              | Some (found, others) \<Rightarrow> others)"
  proof (rule receive_scan_ptr_refines)
    show "chain h head [] head" by simp
    show "chain h head xs 0" using assms by (simp add: linked_to_def linked_def)
    show "distinct (map fst ([] @ xs))" using assms by (simp add: linked_to_def linked_def)
    show "0 = (if [] = [] then 0 else fst (last []))" by simp
    show "tail = (if [] @ xs = [] then 0 else fst (last ([] @ xs)))"
      using assms by (simp add: linked_to_def)
  qed
  then show ?thesis by simp
qed

end
